theory Spec2Isabelle
  imports Complex_Main "HOL-Library.Log_Nat"
begin

section \<open>Python strings\<close>

text \<open>
  A Python \<open>str\<close> is a sequence of Unicode code points; a code point is modelled as
  a natural number, so that \<open>length\<close> counts what \<open>len\<close> counts and the
  whitespace and digit tables below are the interpreter's own.
\<close>

type_synonym pychar = nat
type_synonym pystr = "pychar list"

definition py :: "string \<Rightarrow> pystr" where
  "py s = map of_char s"

definition dq :: pychar where "dq = 34"
definition comma :: pychar where "comma = 44"
definition nl :: pychar where "nl = 10"
definition cr :: pychar where "cr = 13"

text \<open>
  \<open>str.isspace\<close> on one character, which is also the class \<open>\s\<close> of a
  \<open>str\<close> pattern and what \<open>str.strip()\<close> removes.
\<close>

definition isspace :: "pychar \<Rightarrow> bool" where
  "isspace c \<longleftrightarrow>
     (9 \<le> c \<and> c \<le> 13) \<or> (28 \<le> c \<and> c \<le> 32) \<or> c = 133 \<or> c = 160 \<or> c = 5760 \<or>
     (8192 \<le> c \<and> c \<le> 8202) \<or> c = 8232 \<or> c = 8233 \<or> c = 8239 \<or> c = 8287 \<or>
     c = 12288"

text \<open>\<open>val.strip()\<close>: whitespace removed at both ends.\<close>

definition lstrip :: "pystr \<Rightarrow> pystr" where
  "lstrip s = dropWhile isspace s"

definition rstrip :: "pystr \<Rightarrow> pystr" where
  "rstrip s = rev (dropWhile isspace (rev s))"

definition strip :: "pystr \<Rightarrow> pystr" where
  "strip s = rstrip (lstrip s)"

text \<open>\<open>line.rstrip("\n\r")\<close>: every trailing line feed and carriage return removed.\<close>

definition rstrip_newlines :: "pystr \<Rightarrow> pystr" where
  "rstrip_newlines s = rev (dropWhile (\<lambda>c. c = nl \<or> c = cr) (rev s))"

text \<open>
  \<open>val.replace('""', '"')\<close>: the occurrences of two double quotes, found from the
  left and not overlapping, each replaced by one.
\<close>

fun replace_dq :: "pystr \<Rightarrow> pystr" where
  "replace_dq (a # b # s) =
     (if a = dq \<and> b = dq then dq # replace_dq s else a # replace_dq (b # s))"
| "replace_dq s = s"

section \<open>The pattern of \<open>read_csv\<close>\<close>

text \<open>
  The compiled pattern, with the verbose layout and its comments removed, is
  \<^verbatim>\<open>\s*(?:"((?:[^"]|"")*)"|([^",]*))\s*(?:,|$)\<close>.
  A backtracking matcher tries the ways a pattern can match in a fixed order and takes
  the first that lets the rest of the pattern match. Each part of the pattern is
  modelled by the list of its possible matches at the front of a string, in that order;
  a string is always the rest of the line from the current position on.
\<close>

text \<open>
  A greedy star over a character class: the longest run first, then every shorter one.
  Each result is the matched text and what follows it.
\<close>

fun star_class :: "(pychar \<Rightarrow> bool) \<Rightarrow> pystr \<Rightarrow> (pystr \<times> pystr) list" where
  "star_class p [] = [([], [])]"
| "star_class p (c # s) =
     (if p c then map (\<lambda>(m, r). (c # m, r)) (star_class p s) else []) @ [([], c # s)]"

text \<open>The class \<^verbatim>\<open>[^",]\<close> of an unquoted field.\<close>

definition unquoted_char :: "pychar \<Rightarrow> bool" where
  "unquoted_char c \<longleftrightarrow> c \<noteq> dq \<and> c \<noteq> comma"

text \<open>
  \<^verbatim>\<open>(?:[^"]|"")*\<close>, the body of a quoted field: each round takes one character
  that is not a double quote or, failing that, two double quotes.
\<close>

fun star_quoted :: "pystr \<Rightarrow> (pystr \<times> pystr) list" where
  "star_quoted [] = [([], [])]"
| "star_quoted [c] = (if c \<noteq> dq then [([c], [])] else []) @ [([], [c])]"
| "star_quoted (c # d # s) =
     (if c \<noteq> dq then map (\<lambda>(m, r). (c # m, r)) (star_quoted (d # s))
      else if d = dq then map (\<lambda>(m, r). (dq # dq # m, r)) (star_quoted s)
      else [])
     @ [([], c # d # s)]"

text \<open>
  \<^verbatim>\<open>$\<close> without the MULTILINE flag: the end of the string, or just before a line
  feed that ends the string.
\<close>

definition at_dollar :: "pystr \<Rightarrow> bool" where
  "at_dollar s \<longleftrightarrow> s = [] \<or> s = [nl]"

text \<open>
  \<^verbatim>\<open>(?:,|$)\<close>: a comma, which is consumed, or else the end, which consumes nothing.
  The comma is written in the pattern; the parameter \<open>sep\<close> of \<open>read_csv\<close>
  does not occur in it. The results are what follows the match.
\<close>

definition comma_or_end :: "pystr \<Rightarrow> pystr list" where
  "comma_or_end s =
     (case s of [] \<Rightarrow> [] | c # r \<Rightarrow> if c = comma then [r] else [])
     @ (if at_dollar s then [s] else [])"

text \<open>\<^verbatim>\<open>\s*(?:,|$)\<close>, the end of the pattern.\<close>

definition field_end :: "pystr \<Rightarrow> pystr list" where
  "field_end s = concat (map (\<lambda>(w, r). comma_or_end r) (star_class isspace s))"

text \<open>
  A match object: the two groups (\<open>None\<close> for a group that took no part in the
  match) and the rest of the line after the match.
\<close>

record rmatch =
  group1 :: "pystr option"
  group2 :: "pystr option"
  after :: pystr

text \<open>The first alternative: \<^verbatim>\<open>"((?:[^"]|"")*)"\<close> and then the end of the pattern.\<close>

definition quoted_field :: "pystr \<Rightarrow> rmatch list" where
  "quoted_field s =
     (case s of
        [] \<Rightarrow> []
      | c # s1 \<Rightarrow>
          if c = dq then
            concat (map (\<lambda>(g, s2).
              (case s2 of
                 [] \<Rightarrow> []
               | c' # s3 \<Rightarrow>
                   if c' = dq
                   then map (\<lambda>r. \<lparr>group1 = Some g, group2 = None, after = r\<rparr>) (field_end s3)
                   else []))
              (star_quoted s1))
          else [])"

text \<open>The second alternative: \<^verbatim>\<open>([^",]*)\<close> and then the end of the pattern.\<close>

definition unquoted_field :: "pystr \<Rightarrow> rmatch list" where
  "unquoted_field s =
     concat (map (\<lambda>(g, s1).
         map (\<lambda>r. \<lparr>group1 = None, group2 = Some g, after = r\<rparr>) (field_end s1))
       (star_class unquoted_char s))"

text \<open>All matches of the whole pattern that start at the front of \<open>s\<close>, in order.\<close>

definition pattern_matches :: "pystr \<Rightarrow> rmatch list" where
  "pattern_matches s =
     concat (map (\<lambda>(w, s1). quoted_field s1 @ unquoted_field s1) (star_class isspace s))"

text \<open>
  One attempt of the engine at one position. With \<open>must_advance\<close> set, a match that
  ends where it starts is refused and the engine backtracks into the next one.
\<close>

definition match_at :: "bool \<Rightarrow> pystr \<Rightarrow> rmatch option" where
  "match_at must_advance s =
     List.find (\<lambda>m. \<not> must_advance \<or> length (after m) < length s) (pattern_matches s)"

text \<open>
  The engine's search: an attempt at the start position, then one at each later position
  up to and including the end of the line; \<open>must_advance\<close> holds for the first attempt
  only. The result is where the match starts and the match.
\<close>

fun search :: "bool \<Rightarrow> pystr \<Rightarrow> (pystr \<times> rmatch) option" where
  "search must_advance [] =
     (case match_at must_advance [] of None \<Rightarrow> None | Some m \<Rightarrow> Some ([], m))"
| "search must_advance (c # s) =
     (case match_at must_advance (c # s) of
        None \<Rightarrow> search False s
      | Some m \<Rightarrow> Some (c # s, m))"


lemma star_class_append: "(m, r) \<in> set (star_class p s) \<Longrightarrow> s = m @ r"
  by (induction s arbitrary: m r) (auto split: if_splits)

lemma star_quoted_append: "(m, r) \<in> set (star_quoted s) \<Longrightarrow> s = m @ r"
  by (induction s arbitrary: m r rule: star_quoted.induct) (auto split: if_splits)

lemma comma_or_end_length: "r \<in> set (comma_or_end s) \<Longrightarrow> length r \<le> length s"
  by (auto simp: comma_or_end_def split: list.splits if_splits)

lemma field_end_length: "r \<in> set (field_end s) \<Longrightarrow> length r \<le> length s"
  by (fastforce simp: field_end_def dest: star_class_append comma_or_end_length)

lemma quoted_field_length: "m \<in> set (quoted_field s) \<Longrightarrow> length (after m) \<le> length s"
  by (fastforce simp: quoted_field_def split: list.splits if_splits
      dest: star_quoted_append field_end_length)

lemma unquoted_field_length: "m \<in> set (unquoted_field s) \<Longrightarrow> length (after m) \<le> length s"
  by (fastforce simp: unquoted_field_def dest: star_class_append field_end_length)

lemma pattern_matches_length:
  "m \<in> set (pattern_matches s) \<Longrightarrow> length (after m) \<le> length s"
  by (fastforce simp: pattern_matches_def
      dest: star_class_append quoted_field_length unquoted_field_length)

lemma match_at_length:
  assumes "match_at adv s = Some m"
  shows "length (after m) \<le> length s" and "adv \<Longrightarrow> length (after m) < length s"
  using assms pattern_matches_length [of m s]
  by (auto simp: match_at_def find_Some_iff)

lemma search_length:
  assumes "search adv s = Some (st, m)"
  shows "length (after m) \<le> length st \<and> length st \<le> length s \<and>
         (adv \<longrightarrow> length (after m) = length st \<longrightarrow> length st < length s)"
  using assms
proof (induction s arbitrary: adv)
  case Nil
  then show ?case
    by (auto split: option.splits dest: match_at_length)
next
  case (Cons c s)
  show ?case
  proof (cases "match_at adv (c # s)")
    case None
    with Cons.prems have "search False s = Some (st, m)" by simp
    from Cons.IH [OF this] show ?thesis by auto
  next
    case (Some m')
    with Cons.prems have "st = c # s" "m' = m" by auto
    with Some show ?thesis
      using match_at_length [of adv "c # s" m] by auto
  qed
qed

text \<open>
  \<open>pattern.finditer(line)\<close>: the scanner searches from where the last match ended;
  after a match that ended where it started (as much of the line is left after it as
  when it started), the next one must advance. It stops at the first search that finds
  nothing.
\<close>

function finditer_from :: "bool \<Rightarrow> pystr \<Rightarrow> rmatch list" where
  "finditer_from must_advance s =
     (case search must_advance s of
        None \<Rightarrow> []
      | Some (st, m) \<Rightarrow> m # finditer_from (length (after m) = length st) (after m))"
  by pat_completeness auto
termination
proof (relation "measure (\<lambda>(adv, s). 2 * length s + (if adv then 0 else 1))")
  show "wf (measure (\<lambda>(adv, s). 2 * length s + (if adv then 0 else 1)))"
    by simp
next
  fix must_advance s x2 st m
  assume "search must_advance s = Some x2" "(st, m) = x2"
  then have "search must_advance s = Some (st, m)" by simp
  from search_length [OF this]
  show "((length (after m) = length st, after m), (must_advance, s))
        \<in> measure (\<lambda>(adv, s). 2 * length s + (if adv then 0 else 1))"
    by (cases must_advance) auto
qed

definition finditer :: "pystr \<Rightarrow> rmatch list" where
  "finditer line = finditer_from False line"

text \<open>\<open>m.group(1) or m.group(2) or ""\<close>: the first group that is neither \<open>None\<close> nor empty.\<close>

definition group_or :: "rmatch \<Rightarrow> pystr" where
  "group_or m =
     (case group1 m of
        Some (c # g) \<Rightarrow> c # g
      | _ \<Rightarrow> (case group2 m of Some (c # g) \<Rightarrow> c # g | _ \<Rightarrow> []))"

text \<open>The text of one field as it is handed to \<open>convert_value\<close>.\<close>

definition field_text :: "rmatch \<Rightarrow> pystr" where
  "field_text m = strip (replace_dq (group_or m))"

definition field_texts :: "pystr \<Rightarrow> pystr list" where
  "field_texts line = map field_text (finditer line)"


section \<open>Values\<close>

text \<open>
  The values of a table are Python's \<open>int\<close>, \<open>float\<close> and \<open>str\<close>. A float is
  modelled by the number it denotes, with the two infinities, the negative zero and NaN
  apart. A dictionary finds a key that is the same object as one it holds, or one equal
  to it; every value but NaN equals itself, so the identity of an object matters for NaN
  only, and a NaN carries the identity of its object.
\<close>

type_synonym oid = "nat \<times> nat"

datatype pyfloat = Finite rat | NegZero | PosInf | NegInf | NaN oid

datatype pyval = PInt int | PFloat pyfloat | PStr pystr

text \<open>The number a float denotes, when it is one.\<close>

fun float_value :: "pyfloat \<Rightarrow> rat option" where
  "float_value (Finite q) = Some q"
| "float_value NegZero = Some 0"
| "float_value _ = None"

text \<open>
  Whether a dictionary takes two keys for the same: identity or \<open>==\<close> (equal keys
  have equal hashes). An \<open>int\<close> and a \<open>float\<close> are compared by their exact
  values; a \<open>str\<close> equals no number.
\<close>

fun float_key_eq :: "pyfloat \<Rightarrow> pyfloat \<Rightarrow> bool" where
  "float_key_eq (NaN i) (NaN j) = (i = j)"
| "float_key_eq PosInf PosInf = True"
| "float_key_eq NegInf NegInf = True"
| "float_key_eq x y = (float_value x \<noteq> None \<and> float_value x = float_value y)"

fun key_eq :: "pyval \<Rightarrow> pyval \<Rightarrow> bool" where
  "key_eq (PInt i) (PInt j) = (i = j)"
| "key_eq (PInt i) (PFloat y) = (float_value y = Some (of_int i))"
| "key_eq (PFloat x) (PInt j) = (float_value x = Some (of_int j))"
| "key_eq (PFloat x) (PFloat y) = float_key_eq x y"
| "key_eq (PStr s) (PStr t) = (s = t)"
| "key_eq _ _ = False"

section \<open>\<open>int()\<close> and \<open>float()\<close> on a string\<close>

definition underscore :: pychar where "underscore = 95"
definition plus_sign :: pychar where "plus_sign = 43"
definition minus_sign :: pychar where "minus_sign = 45"
definition dot :: pychar where "dot = 46"

definition is_digit :: "pychar \<Rightarrow> bool" where
  "is_digit c \<longleftrightarrow> 48 \<le> c \<and> c \<le> 57"

text \<open>The interpreter's \<open>Py_ISSPACE\<close>, the whitespace both conversions skip.\<close>

definition c_isspace :: "pychar \<Rightarrow> bool" where
  "c_isspace c \<longleftrightarrow> (9 \<le> c \<and> c \<le> 13) \<or> c = 32"

text \<open>
  The decimal digits of Unicode 14.0 (the table of CPython 3.11): each entry is the
  digit zero of a run of ten digits.
\<close>

definition decimal_zeros :: "pychar list" where
  "decimal_zeros =
     [48, 1632, 1776, 1984, 2406, 2534, 2662, 2790, 2918, 3046, 3174, 3302, 3430, 3558,
      3664, 3792, 3872, 4160, 4240, 6112, 6160, 6470, 6608, 6784, 6800, 6992, 7088, 7232,
      7248, 42528, 43216, 43264, 43472, 43504, 43600, 44016, 65296, 66720, 68912, 69734,
      69872, 69942, 70096, 70384, 70736, 70864, 71248, 71360, 71472, 71904, 72016, 72784,
      73040, 73120, 92768, 92864, 93008, 120782, 120792, 120802, 120812, 120822, 123200,
      123632, 125264, 130032]"

definition to_decimal :: "pychar \<Rightarrow> nat option" where
  "to_decimal c =
     (case filter (\<lambda>z. z \<le> c \<and> c < z + 10) decimal_zeros of
        [] \<Rightarrow> None
      | z # _ \<Rightarrow> Some (c - z))"

text \<open>
  Both conversions first rewrite a string that is not pure ASCII: a Unicode space
  becomes a blank, a Unicode decimal digit its ASCII digit, and any other character from
  127 on a question mark, at which the string is cut.
\<close>

fun transform_decimal_and_space :: "pystr \<Rightarrow> pystr" where
  "transform_decimal_and_space [] = []"
| "transform_decimal_and_space (c # s) =
     (if c < 127 then c # transform_decimal_and_space s
      else if isspace c then 32 # transform_decimal_and_space s
      else (case to_decimal c of
              None \<Rightarrow> [63]
            | Some d \<Rightarrow> (48 + d) # transform_decimal_and_space s))"

definition to_ascii :: "pystr \<Rightarrow> pystr" where
  "to_ascii s = (if list_all (\<lambda>c. c < 128) s then s else transform_decimal_and_space s)"

definition decimal_value :: "pystr \<Rightarrow> int" where
  "decimal_value ds = foldl (\<lambda>n c. 10 * n + int (c - 48)) 0 ds"

text \<open>
  The digits of an integer literal: digits with single underscores between them.
  \<open>prev\<close> is the character before; the result is the digits read and the rest, or
  \<open>None\<close> for a doubled or a trailing underscore.
\<close>

fun scan_digits :: "pychar \<Rightarrow> pystr \<Rightarrow> (pystr \<times> pystr) option" where
  "scan_digits prev [] = (if prev = underscore then None else Some ([], []))"
| "scan_digits prev (c # s) =
     (if c = underscore then (if prev = underscore then None else scan_digits c s)
      else if is_digit c then map_option (\<lambda>(ds, r). (c # ds, r)) (scan_digits c s)
      else if prev = underscore then None
      else Some ([], c # s))"

text \<open>
  \<open>sys.get_int_max_str_digits()\<close>: since CPython 3.11 a string of more digits is
  refused with a \<open>ValueError\<close>. 4300 is the default.
\<close>

definition int_max_str_digits :: int where
  "int_max_str_digits = 4300"

text \<open>
  \<open>int(val)\<close> in base 10; \<open>None\<close> stands for the \<open>ValueError\<close>. Whitespace
  around the literal is skipped, a sign may come first, and the literal may not start
  with an underscore.
\<close>

definition long_from_string :: "pystr \<Rightarrow> int option" where
  "long_from_string s =
     (let s1 = dropWhile c_isspace s;
          neg = (s1 \<noteq> [] \<and> hd s1 = minus_sign);
          s2 = (if s1 \<noteq> [] \<and> (hd s1 = plus_sign \<or> hd s1 = minus_sign) then tl s1 else s1)
      in if s2 \<noteq> [] \<and> hd s2 = underscore then None
         else (case scan_digits 0 s2 of
                 None \<Rightarrow> None
               | Some (ds, r) \<Rightarrow>
                   if ds = [] then None
                   else if dropWhile c_isspace r \<noteq> [] then None
                   else if int_max_str_digits < int (length ds) then None
                   else Some ((if neg then - 1 else 1) * decimal_value ds)))"

definition py_int :: "pystr \<Rightarrow> int option" where
  "py_int val = long_from_string (to_ascii val)"

text \<open>
  Rounding to the nearest double, ties to even: \<open>floor_log2 q\<close> is the exponent of the
  binade of \<open>q > 0\<close>; below the normal range the spacing of the doubles stays that of
  the subnormals, and from \<open>2 ^ 1024\<close> on the result is infinite.
\<close>

definition round_half_even :: "rat \<Rightarrow> int" where
  "round_half_even q =
     (let n = \<lfloor>q\<rfloor>; r = q - of_int n
      in if r < 1 / 2 then n else if 1 / 2 < r then n + 1 else if even n then n else n + 1)"

definition floor_log2 :: "rat \<Rightarrow> int" where
  "floor_log2 q =
     (let e = bitlen (fst (quotient_of q)) - bitlen (snd (quotient_of q))
      in if 2 powi e \<le> q then e else e - 1)"

definition binary64 :: "bool \<Rightarrow> rat \<Rightarrow> pyfloat" where
  "binary64 neg q =
     (if q = 0 then (if neg then NegZero else Finite 0)
      else
        let e = max (floor_log2 q) (- 1022);
            ulp = 2 powi (e - 52);
            v = of_int (round_half_even (q / ulp)) * ulp
        in if 2 powi 1024 \<le> v then (if neg then NegInf else PosInf)
           else if v = 0 then (if neg then NegZero else Finite 0)
           else Finite (if neg then - v else v))"

text \<open>An optional sign: whether it is a minus, and the rest.\<close>

definition opt_sign :: "pystr \<Rightarrow> bool \<times> pystr" where
  "opt_sign s =
     (case s of
        [] \<Rightarrow> (False, [])
      | c # r \<Rightarrow>
          if c = minus_sign then (True, r) else if c = plus_sign then (False, r) else (False, s))"

text \<open>
  The exponent part of a float literal: \<open>e\<close> or \<open>E\<close>, an optional sign and digits.
  Without a digit nothing is consumed. An exponent of more than nine significant digits,
  or beyond 1100000000, counts as 1100000000.
\<close>

definition exponent_part :: "pystr \<Rightarrow> int \<times> pystr" where
  "exponent_part s =
     (case s of
        [] \<Rightarrow> (0, [])
      | c # r \<Rightarrow>
          if c = 101 \<or> c = 69 then
            (let (neg, r1) = opt_sign r;
                 ds = takeWhile is_digit r1;
                 sig = dropWhile (\<lambda>c. c = 48) ds;
                 e = (if 9 < length sig \<or> 1100000000 < decimal_value sig then 1100000000
                      else decimal_value sig)
             in if ds = [] then (0, s) else (if neg then - e else e, dropWhile is_digit r1))
          else (0, s))"

text \<open>
  The interpreter's \<open>strtod\<close>: sign, digits, an optional point and digits, an optional
  exponent; at least one digit before the exponent. It gives the double and the rest of
  the string, or \<open>None\<close> when it can read no number. More than 1000000000
  significant or fraction digits are refused.
\<close>

definition strtod :: "pystr \<Rightarrow> (pyfloat \<times> pystr) option" where
  "strtod s =
     (let (neg, s1) = opt_sign s;
          ip = takeWhile is_digit s1;
          s2 = dropWhile is_digit s1;
          has_point = (s2 \<noteq> [] \<and> hd s2 = dot);
          fp = (if has_point then takeWhile is_digit (tl s2) else []);
          s3 = (if has_point then dropWhile is_digit (tl s2) else s2);
          (e, s4) = exponent_part s3
      in if ip = [] \<and> fp = [] then None
         else if 1000000000 < int (length (dropWhile (\<lambda>c. c = 48) (ip @ fp))) \<or>
                 1000000000 < int (length fp) then None
         else Some (binary64 neg (of_int (decimal_value (ip @ fp)) * 10 powi (e - int (length fp))),
                    s4))"

text \<open>A letter of the ASCII alphabet in lower case; any other character unchanged.\<close>

definition lower :: "pychar \<Rightarrow> pychar" where
  "lower c = (if 65 \<le> c \<and> c \<le> 90 then c + 32 else c)"

text \<open>
  \<open>inf\<close>, \<open>infinity\<close> and \<open>nan\<close> in any case, after an optional sign. The
  NaN is a new object, of the identity \<open>new\<close>.
\<close>

definition parse_inf_or_nan :: "oid \<Rightarrow> pystr \<Rightarrow> (pyfloat \<times> pystr) option" where
  "parse_inf_or_nan new s =
     (let (neg, s1) = opt_sign s
      in if map lower (take 3 s1) = py ''inf'' then
           Some (if neg then NegInf else PosInf,
                 if map lower (take 5 (drop 3 s1)) = py ''inity'' then drop 8 s1 else drop 3 s1)
         else if map lower (take 3 s1) = py ''nan'' then Some (NaN new, drop 3 s1)
         else None)"

definition string_to_double :: "oid \<Rightarrow> pystr \<Rightarrow> (pyfloat \<times> pystr) option" where
  "string_to_double new s =
     (case strtod s of Some r \<Rightarrow> Some r | None \<Rightarrow> parse_inf_or_nan new s)"

text \<open>
  Before a float is read, underscores are taken out: each must stand between two
  digits.
\<close>

fun drop_underscores :: "pychar \<Rightarrow> pystr \<Rightarrow> pystr option" where
  "drop_underscores prev [] = (if prev = underscore then None else Some [])"
| "drop_underscores prev (c # s) =
     (if c = underscore then (if is_digit prev then drop_underscores c s else None)
      else if prev = underscore \<and> \<not> is_digit c then None
      else map_option ((#) c) (drop_underscores c s))"

definition float_from_string_inner :: "oid \<Rightarrow> pystr \<Rightarrow> pyfloat option" where
  "float_from_string_inner new s =
     (case string_to_double new (rev (dropWhile c_isspace (rev (dropWhile c_isspace s)))) of
        Some (x, []) \<Rightarrow> Some x
      | _ \<Rightarrow> None)"

text \<open>\<open>float(val)\<close>; \<open>None\<close> stands for the \<open>ValueError\<close>.\<close>

definition py_float :: "oid \<Rightarrow> pystr \<Rightarrow> pyfloat option" where
  "py_float new val =
     (let a = to_ascii val
      in if underscore \<in> set a
         then (case drop_underscores 0 a of
                 None \<Rightarrow> None
               | Some b \<Rightarrow> float_from_string_inner new b)
         else float_from_string_inner new a)"

section \<open>\<open>convert_value\<close>\<close>

text \<open>
  \<open>new\<close> is the identity of the object a successful \<open>float(val)\<close> creates; the
  source function has the one parameter \<open>val\<close>.
\<close>

definition unquote :: "pystr \<Rightarrow> pystr" where
  "unquote val =
     (if 2 \<le> length val \<and> hd val = dq \<and> last val = dq then butlast (tl val) else val)"

definition convert_value :: "oid \<Rightarrow> pystr \<Rightarrow> pyval" where
  "convert_value new val =
     (if val = [] then PStr val
      else
        (case py_int (unquote val) of
           Some n \<Rightarrow> PInt n
         | None \<Rightarrow>
             (case py_float new (unquote val) of
                Some x \<Rightarrow> PFloat x
              | None \<Rightarrow> PStr (unquote val))))"


section \<open>Dictionaries, lists and exceptions\<close>

text \<open>
  A \<open>dict\<close> keeps its keys in the order of their first insertion: an association
  list whose keys are pairwise different for \<open>key_eq\<close>. An exception is a value: a
  step that can raise returns \<open>Inl\<close> of the exception or \<open>Inr\<close> of its result.
\<close>

type_synonym 'v pydict = "(pyval \<times> 'v) list"

datatype exn = KeyError | IndexError | AttributeError | UnboundLocalError | TypeError

text \<open>\<open>d[k]\<close>\<close>

fun dict_get :: "'v pydict \<Rightarrow> pyval \<Rightarrow> exn + 'v" where
  "dict_get [] k = Inl KeyError"
| "dict_get ((k', v) # d) k = (if key_eq k' k then Inr v else dict_get d k)"

text \<open>\<open>k in d\<close>\<close>

fun dict_contains :: "'v pydict \<Rightarrow> pyval \<Rightarrow> bool" where
  "dict_contains [] k = False"
| "dict_contains ((k', v) # d) k = (key_eq k' k \<or> dict_contains d k)"

text \<open>
  \<open>d[k] = v\<close>: a key the dictionary holds keeps its place and its own key object; a
  new key goes to the end.
\<close>

fun dict_set :: "'v pydict \<Rightarrow> pyval \<Rightarrow> 'v \<Rightarrow> 'v pydict" where
  "dict_set [] k v = [(k, v)]"
| "dict_set ((k', v') # d) k v =
     (if key_eq k' k then (k', v) # d else (k', v') # dict_set d k v)"

text \<open>\<open>{col: [] for col in cols}\<close>\<close>

definition empty_columns :: "pyval list \<Rightarrow> pyval list pydict" where
  "empty_columns cols = foldl (\<lambda>d col. dict_set d col []) [] cols"

text \<open>\<open>xs[i]\<close> for an index that is not negative.\<close>

definition list_get :: "'a list \<Rightarrow> nat \<Rightarrow> exn + 'a" where
  "list_get xs i = (if i < length xs then Inr (xs ! i) else Inl IndexError)"

text \<open>A \<open>for\<close> loop over \<open>xs\<close> whose body updates a state and may raise.\<close>

fun for_loop :: "('s \<Rightarrow> 'a \<Rightarrow> exn + 's) \<Rightarrow> 's \<Rightarrow> 'a list \<Rightarrow> exn + 's" where
  "for_loop body s [] = Inr s"
| "for_loop body s (x # xs) =
     (case body s x of Inl e \<Rightarrow> Inl e | Inr s' \<Rightarrow> for_loop body s' xs)"

section \<open>The class \<open>DataFrame\<close>\<close>

record dataframe =
  data :: "pyval list pydict"
  columns :: "pyval list"
  num_rows :: nat

text \<open>
  \<open>DataFrame(data)\<close>, the constructor. The argument is a dictionary or \<open>None\<close>,
  which has no method \<open>keys\<close>.
\<close>

definition DataFrame :: "pyval list pydict option \<Rightarrow> exn + dataframe" where
  "DataFrame arg =
     (case arg of
        None \<Rightarrow> Inl AttributeError
      | Some d \<Rightarrow>
          Inr \<lparr>data = d, columns = map fst d,
               num_rows = (case d of [] \<Rightarrow> 0 | (k, v) # _ \<Rightarrow> length v)\<rparr>)"

text \<open>\<open>self.data[col][i]\<close>\<close>

definition cell :: "dataframe \<Rightarrow> pyval \<Rightarrow> nat \<Rightarrow> exn + pyval" where
  "cell df col i =
     (case dict_get (data df) col of Inl e \<Rightarrow> Inl e | Inr xs \<Rightarrow> list_get xs i)"

text \<open>\<open>{col: self.data[col][i] for col in self.columns}\<close>\<close>

definition row_dict :: "dataframe \<Rightarrow> nat \<Rightarrow> exn + pyval pydict" where
  "row_dict df i =
     for_loop (\<lambda>row col.
         case cell df col i of Inl e \<Rightarrow> Inl e | Inr x \<Rightarrow> Inr (dict_set row col x))
       [] (columns df)"

text \<open>
  \<open>for col in self.columns: target[col].append(self.data[col][i])\<close>, where every
  list of \<open>target\<close> is an object of its own.
\<close>

definition append_row :: "dataframe \<Rightarrow> nat \<Rightarrow> pyval list pydict \<Rightarrow> exn + pyval list pydict" where
  "append_row df i target =
     for_loop (\<lambda>t col.
         case dict_get t col of
           Inl e \<Rightarrow> Inl e
         | Inr xs \<Rightarrow>
             (case cell df col i of
                Inl e \<Rightarrow> Inl e
              | Inr x \<Rightarrow> Inr (dict_set t col (xs @ [x]))))
       target (columns df)"

text \<open>
  \<open>filter\<close>. The caller's function is taken to be a total predicate on the row
  dictionary, with no effect of its own.
\<close>

definition filter_df :: "dataframe \<Rightarrow> (pyval pydict \<Rightarrow> bool) \<Rightarrow> exn + dataframe" where
  "filter_df df func =
     (case for_loop (\<lambda>filtered_data i.
               case row_dict df i of
                 Inl e \<Rightarrow> Inl e
               | Inr row \<Rightarrow> if func row then append_row df i filtered_data else Inr filtered_data)
             (empty_columns (columns df)) [0..<num_rows df] of
        Inl e \<Rightarrow> Inl e
      | Inr filtered_data \<Rightarrow> DataFrame (Some filtered_data))"

definition select :: "dataframe \<Rightarrow> pyval list \<Rightarrow> exn + dataframe" where
  "select df cols =
     (case for_loop (\<lambda>selected_data col.
               case dict_get (data df) col of
                 Inl e \<Rightarrow> Inl e
               | Inr xs \<Rightarrow> Inr (dict_set selected_data col xs))
             [] cols of
        Inl e \<Rightarrow> Inl e
      | Inr selected_data \<Rightarrow> DataFrame (Some selected_data))"

text \<open>One round of the loop of \<open>group_by\<close>, for the row \<open>i\<close>.\<close>

definition group_row ::
  "dataframe \<Rightarrow> pyval \<Rightarrow> pyval list pydict pydict \<Rightarrow> nat \<Rightarrow> exn + pyval list pydict pydict" where
  "group_row df group_col groups i =
     (case cell df group_col i of
        Inl e \<Rightarrow> Inl e
      | Inr key \<Rightarrow>
          (let groups1 =
                 (if dict_contains groups key then groups
                  else dict_set groups key (empty_columns (columns df)))
           in case dict_get groups1 key of
                Inl e \<Rightarrow> Inl e
              | Inr g \<Rightarrow>
                  (case append_row df i g of
                     Inl e \<Rightarrow> Inl e
                   | Inr g' \<Rightarrow> Inr (dict_set groups1 key g'))))"

definition group_by :: "dataframe \<Rightarrow> pyval \<Rightarrow> exn + dataframe pydict" where
  "group_by df group_col =
     (case for_loop (group_row df group_col) [] [0..<num_rows df] of
        Inl e \<Rightarrow> Inl e
      | Inr groups \<Rightarrow>
          for_loop (\<lambda>result (k, v).
              case DataFrame (Some v) of Inl e \<Rightarrow> Inl e | Inr t \<Rightarrow> Inr (dict_set result k t))
            [] groups)"

section \<open>\<open>read_csv\<close>\<close>

text \<open>
  The values of the line with index \<open>i\<close>: every match of the pattern gives one, and
  the float made for the match \<open>j\<close>, if one is made, is the object \<open>(i, j)\<close>.
\<close>

definition line_values :: "nat \<Rightarrow> pystr \<Rightarrow> pyval list" where
  "line_values i line =
     map (\<lambda>(j, m). convert_value (i, j) (field_text m)) (enumerate 0 (finditer line))"

text \<open>
  The local variables of \<open>read_csv\<close> that the loop changes: \<open>columns\<close>, which
  starts as \<open>None\<close>, and \<open>header\<close>, which is unbound (\<open>None\<close> here) until it is
  assigned.
\<close>

record reader =
  columns_var :: "pyval list pydict option"
  header_var :: "pyval list option"

text \<open>The body of the loop over the lines of the file, for the line \<open>raw\<close> of index \<open>i\<close>.\<close>

definition read_line :: "reader \<Rightarrow> nat \<times> pystr \<Rightarrow> exn + reader" where
  "read_line st il =
     (let i = fst il; line = rstrip_newlines (snd il)
      in if line = [] then Inr st
         else
           (let values = line_values i line
            in if i = 0 then
                 Inr \<lparr>columns_var = Some (empty_columns values), header_var = Some values\<rparr>
               else
                 (case header_var st of
                    None \<Rightarrow> Inl UnboundLocalError
                  | Some header \<Rightarrow>
                      (case for_loop (\<lambda>cols hv.
                                case cols of
                                  None \<Rightarrow> Inl TypeError
                                | Some d \<Rightarrow>
                                    (case dict_get d (fst hv) of
                                       Inl e \<Rightarrow> Inl e
                                     | Inr xs \<Rightarrow> Inr (Some (dict_set d (fst hv) (xs @ [snd hv])))))
                              (columns_var st) (zip header values) of
                         Inl e \<Rightarrow> Inl e
                       | Inr cols \<Rightarrow> Inr (st\<lparr>columns_var := cols\<rparr>)))))"

text \<open>
  \<open>read_csv(filename, sep)\<close>, on the lines that iterating over the opened file
  yields (each with its line end) in place of the file's name. \<open>sep\<close> is the second
  parameter of the source function, which never uses it.
\<close>

definition read_csv :: "pystr list \<Rightarrow> pystr \<Rightarrow> exn + dataframe" where
  "read_csv lines sep =
     (case for_loop read_line \<lparr>columns_var = None, header_var = None\<rparr> (enumerate 0 lines) of
        Inl e \<Rightarrow> Inl e
      | Inr st \<Rightarrow> DataFrame (columns_var st))"


section \<open>Notions for the statements about tables\<close>

text \<open>
  The keys of a dictionary are pairwise different for \<open>key_eq\<close>.
\<close>

fun distinct_keys :: "pyval list \<Rightarrow> bool" where
  "distinct_keys [] = True"
| "distinct_keys (k # ks) = ((\<forall>k' \<in> set ks. \<not> key_eq k k') \<and> distinct_keys ks)"

text \<open>
  A \<open>DataFrame\<close> object as its constructor leaves it: \<open>data\<close> is a dictionary,
  \<open>columns\<close> lists its keys, and \<open>num_rows\<close> is the length of its first column, or
  0 without a column.
\<close>

definition is_dataframe :: "dataframe \<Rightarrow> bool" where
  "is_dataframe df \<longleftrightarrow>
     distinct_keys (map fst (data df)) \<and> columns df = map fst (data df) \<and>
     num_rows df = (case data df of [] \<Rightarrow> 0 | (k, v) # _ \<Rightarrow> length v)"

definition new_dataframe :: "pyval list pydict \<Rightarrow> dataframe" where
  "new_dataframe d =
     \<lparr>data = d, columns = map fst d, num_rows = (case d of [] \<Rightarrow> 0 | (k, v) # _ \<Rightarrow> length v)\<rparr>"

text \<open>The invariant of a table: every column has \<open>num_rows\<close> values.\<close>

definition aligned :: "dataframe \<Rightarrow> bool" where
  "aligned df \<longleftrightarrow> (\<forall>xs \<in> snd ` set (data df). length xs = num_rows df)"

text \<open>
  The columns of a table cut down to the rows \<open>idxs\<close>, in the order of \<open>idxs\<close>, and
  the row \<open>i\<close> as a dictionary.
\<close>

definition take_rows :: "dataframe \<Rightarrow> nat list \<Rightarrow> pyval list pydict" where
  "take_rows df idxs = map (\<lambda>(k, xs). (k, map ((!) xs) idxs)) (data df)"

definition row_of :: "dataframe \<Rightarrow> nat \<Rightarrow> pyval pydict" where
  "row_of df i = map (\<lambda>(k, xs). (k, xs ! i)) (data df)"

text \<open>
  For a column \<open>col\<close> and its first \<open>m\<close> rows: the rows whose value no earlier row
  has (for \<open>key_eq\<close>), in ascending order, and the rows whose value is the key \<open>k\<close>,
  in ascending order.
\<close>

definition first_rows :: "pyval list \<Rightarrow> nat \<Rightarrow> nat list" where
  "first_rows col m = filter (\<lambda>i. \<forall>j<i. \<not> key_eq (col ! j) (col ! i)) [0..<m]"

definition key_rows :: "pyval list \<Rightarrow> pyval \<Rightarrow> nat \<Rightarrow> nat list" where
  "key_rows col k m = filter (\<lambda>i. key_eq k (col ! i)) [0..<m]"

text \<open>The dictionary \<open>groups\<close> of \<open>group_by\<close> after the first \<open>m\<close> rows.\<close>

definition groups_upto :: "dataframe \<Rightarrow> pyval list \<Rightarrow> nat \<Rightarrow> pyval list pydict pydict" where
  "groups_upto df col m =
     map (\<lambda>i. (col ! i, take_rows df (key_rows col (col ! i) m))) (first_rows col m)"

text \<open>
  For the header of a file: how many of its fields are the dictionary key \<open>k\<close>; and
  for the lines after the header, how many are not empty (the data rows).
\<close>

definition occurrences :: "pyval list \<Rightarrow> pyval \<Rightarrow> nat" where
  "occurrences header k = length (filter (key_eq k) header)"

definition data_rows :: "pystr list \<Rightarrow> nat" where
  "data_rows ls = length (filter (\<lambda>l. rstrip_newlines l \<noteq> []) ls)"

text \<open>
  The columns \<open>d\<close> after the pairs \<open>hvs\<close> of a header field and a value were added:
  each column has received the values of the fields that are its key. \<open>read_rows\<close>
  adds, for each data row, the pairs of the header with the values of the row.
\<close>

definition add_fields :: "pyval list pydict \<Rightarrow> (pyval \<times> pyval) list \<Rightarrow> pyval list pydict" where
  "add_fields d hvs =
     map (\<lambda>(k, xs). (k, xs @ map snd (filter (\<lambda>hv. key_eq k (fst hv)) hvs))) d"

fun read_rows :: "pyval list \<Rightarrow> pyval list pydict \<Rightarrow> nat \<Rightarrow> pystr list \<Rightarrow> pyval list pydict" where
  "read_rows header d i [] = d"
| "read_rows header d i (l # ls) =
     (if rstrip_newlines l = [] then read_rows header d (Suc i) ls
      else read_rows header
             (add_fields d (zip header (line_values i (rstrip_newlines l)))) (Suc i) ls)"

text \<open>
  The values of one row that stand under a header field that is the key \<open>k\<close>, in the
  order of the row; and those values for every data row in turn, the lines being numbered
  from \<open>i\<close> on.
\<close>

definition row_fields :: "pyval list \<Rightarrow> pyval \<Rightarrow> pyval list \<Rightarrow> pyval list" where
  "row_fields header k vs = map snd (filter (\<lambda>hv. key_eq k (fst hv)) (zip header vs))"

fun column_values :: "pyval list \<Rightarrow> pyval \<Rightarrow> nat \<Rightarrow> pystr list \<Rightarrow> pyval list" where
  "column_values header k i [] = []"
| "column_values header k i (l # ls) =
     (if rstrip_newlines l = [] then column_values header k (Suc i) ls
      else row_fields header k (line_values i (rstrip_newlines l)) @
           column_values header k (Suc i) ls)"

text \<open>
  \<open>key_eq\<close> compares canonical keys: the number, the infinity, the NaN object or the
  string that a value stands for as a dictionary key.
\<close>

datatype ckey = KNum rat | KPosInf | KNegInf | KNaN oid | KStr pystr

fun float_key :: "pyfloat \<Rightarrow> ckey" where
  "float_key (Finite q) = KNum q"
| "float_key NegZero = KNum 0"
| "float_key PosInf = KPosInf"
| "float_key NegInf = KNegInf"
| "float_key (NaN i) = KNaN i"

fun key_of :: "pyval \<Rightarrow> ckey" where
  "key_of (PInt i) = KNum (of_int i)"
| "key_of (PFloat x) = float_key x"
| "key_of (PStr s) = KStr s"

text \<open>
  A table of four rows: the column \<open>k\<close> holds 1, 2, 1, 3 and the column \<open>v\<close> holds
  10, 20, 30, 40.
\<close>

definition sample :: dataframe where
  "sample =
     \<lparr>data = [(PStr (py ''k''), [PInt 1, PInt 2, PInt 1, PInt 3]),
              (PStr (py ''v''), [PInt 10, PInt 20, PInt 30, PInt 40])],
      columns = [PStr (py ''k''), PStr (py ''v'')], num_rows = 4\<rparr>"

section \<open>Notions for the statements about fields and values\<close>

text \<open>
  The text of a quoted field as it stands in a line: every double quote of the content
  is written twice.
\<close>

fun escape_quotes :: "pystr \<Rightarrow> pystr" where
  "escape_quotes [] = []"
| "escape_quotes (c # s) = (if c = dq then [dq, dq] else [c]) @ escape_quotes s"

text \<open>
  A field as it is written in a line: quoted, that is white space, the quoted content
  and white space again; or unquoted, a text without a double quote and without a comma.
  \<open>written\<close> is the text of the field in the line and \<open>content\<close> is what it
  stands for.
\<close>

datatype csv_field = Quoted pystr pystr pystr | Unquoted pystr

fun written :: "csv_field \<Rightarrow> pystr" where
  "written (Quoted ws1 c ws2) = ws1 @ dq # escape_quotes c @ dq # ws2"
| "written (Unquoted u) = u"

fun content :: "csv_field \<Rightarrow> pystr" where
  "content (Quoted ws1 c ws2) = c"
| "content (Unquoted u) = u"

fun well_written :: "csv_field \<Rightarrow> bool" where
  "well_written (Quoted ws1 c ws2) \<longleftrightarrow> list_all isspace ws1 \<and> list_all isspace ws2"
| "well_written (Unquoted u) \<longleftrightarrow> list_all unquoted_char u"

text \<open>
  The integer literals as the specification words them: an optional sign and then
  decimal digits only.
\<close>

definition plain_integer :: "pystr \<Rightarrow> bool" where
  "plain_integer s \<longleftrightarrow>
     (case s of
        [] \<Rightarrow> False
      | c # r \<Rightarrow>
          if c = plus_sign \<or> c = minus_sign then r \<noteq> [] \<and> list_all is_digit r
          else list_all is_digit s)"

text \<open>
  The integer literals that \<open>int()\<close> reads: decimal digits, where a single underscore
  may stand between two digits, after an optional sign, with white space allowed before
  and after, and with no more digits than \<open>int_max_str_digits\<close>.
\<close>

fun digit_groups :: "pystr \<Rightarrow> bool" where
  "digit_groups [] = False"
| "digit_groups [c] = is_digit c"
| "digit_groups (c # d # s) =
     (is_digit c \<and> (if d = underscore then digit_groups s else digit_groups (d # s)))"

definition int_literal :: "pystr \<Rightarrow> bool" where
  "int_literal s \<longleftrightarrow>
     (\<exists>ws1 sg body ws2.
        s = ws1 @ sg @ body @ ws2 \<and> list_all c_isspace ws1 \<and> list_all c_isspace ws2 \<and>
        (sg = [] \<or> sg = [plus_sign] \<or> sg = [minus_sign]) \<and> digit_groups body \<and>
        int (length (filter is_digit body)) \<le> int_max_str_digits)"

section \<open>Evaluation on concrete inputs\<close>

text \<open>The defining equations, collected for the simplifier to run the code with.\<close>

lemmas str_defs = py_def dq_def comma_def nl_def cr_def isspace_def lstrip_def rstrip_def
  strip_def rstrip_newlines_def

lemmas re_defs = unquoted_char_def at_dollar_def comma_or_end_def field_end_def
  quoted_field_def unquoted_field_def pattern_matches_def match_at_def finditer_def
  group_or_def field_text_def field_texts_def finditer_from.simps

lemmas conv_defs = underscore_def plus_sign_def minus_sign_def dot_def is_digit_def
  c_isspace_def to_ascii_def decimal_value_def int_max_str_digits_def long_from_string_def
  py_int_def opt_sign_def exponent_part_def strtod_def lower_def parse_inf_or_nan_def
  string_to_double_def float_from_string_inner_def py_float_def unquote_def
  convert_value_def Let_def

lemmas df_defs = empty_columns_def list_get_def DataFrame_def cell_def row_dict_def
  append_row_def filter_df_def select_def group_row_def group_by_def line_values_def
  read_line_def read_csv_def upt_conv_Cons

section \<open>The field count of a line (claim C1)\<close>

text \<open>
  Claim C1 says that a line of unquoted fields with \<open>n\<close> separators gives \<open>n + 1\<close>
  fields. The pattern can match the empty string at the end of a line, and the scanner
  reports that match after the one that reached the end: the line \<open>a,b\<close> has one
  comma and gives the three fields \<open>a\<close>, \<open>b\<close> and an empty one.
\<close>

theorem fields_of_a_comma_b:
  "count_list (py ''a,b'') comma = 1 \<and>
   field_texts (py ''a,b'') = [py ''a'', py ''b'', []] \<and>
   line_values 0 (py ''a,b'') = [PStr (py ''a''), PStr (py ''b''), PStr []]"
  by (simp add: str_defs re_defs conv_defs df_defs)

section \<open>The separator (claim C2)\<close>

text \<open>
  Claim C2 says that \<open>read_csv\<close> splits a line at the separator its caller passes.
  The pattern has the comma written in it and \<open>sep\<close> is never read: with the
  separator \<open>;\<close> the lines \<open>a;b\<close> and \<open>1;2\<close> are not split, and the table has the
  column \<open>a;b\<close> (and the empty column that every line ends with).
\<close>

theorem read_csv_semicolon:
  "read_csv [py ''a;b'' @ [nl], py ''1;2'' @ [nl]] (py '';'') =
     Inr \<lparr>data = [(PStr (py ''a;b''), [PStr (py ''1;2'')]), (PStr [], [PStr []])],
          columns = [PStr (py ''a;b''), PStr []], num_rows = 1\<rparr>"
  by (simp add: str_defs re_defs conv_defs df_defs)

section \<open>Quoted fields (claim C3)\<close>

text \<open>
  Claim C3 says that the field of a quoted text is exactly the content between the outer
  quotes, with each doubled quote collapsed to one, and that white space is trimmed only
  around the field and not from the quoted content. \<open>read_csv\<close> calls \<open>strip()\<close>
  on the content after collapsing the quotes: the line that is a quote, a space, \<open>a\<close>,
  a space and a quote gives the field \<open>a\<close>, without the two spaces of the content.
\<close>

theorem quoted_field_is_stripped:
  "field_texts (dq # py '' a '' @ [dq]) = [py ''a'', []] \<and> py ''a'' \<noteq> py '' a ''"
  by (simp add: str_defs re_defs)

text \<open>The scanner takes the longest run of a class, and the whole quoted content.\<close>

lemma replace_escape: "replace_dq (escape_quotes c) = c"
proof (induction c)
  case Nil
  show ?case by simp
next
  case (Cons x xs)
  show ?case
  proof (cases "x = dq")
    case True
    with Cons show ?thesis by simp
  next
    case False
    with Cons show ?thesis by (cases "escape_quotes xs") simp_all
  qed
qed

lemma star_class_greedy:
  assumes "list_all p ws" "r = [] \<or> \<not> p (hd r)"
  shows "\<exists>rest. star_class p (ws @ r) = (ws, r) # rest"
  using assms
proof (induction ws)
  case Nil
  then show ?case by (cases r) auto
next
  case (Cons w ws)
  then obtain rest where "star_class p (ws @ r) = (ws, r) # rest" by auto
  with Cons.prems show ?case by simp
qed

lemma star_quoted_not_empty: "star_quoted s \<noteq> []"
  by (induction s rule: star_quoted.induct) auto

lemma star_quoted_greedy:
  assumes "w = [] \<or> hd w \<noteq> dq"
  shows "\<exists>rest. star_quoted (escape_quotes c @ dq # w) = (escape_quotes c, dq # w) # rest"
proof (induction c)
  case Nil
  from assms show ?case by (cases w) auto
next
  case (Cons x xs)
  then obtain rest where rest: "star_quoted (escape_quotes xs @ dq # w) = (escape_quotes xs, dq # w) # rest"
    by blast
  show ?case
  proof (cases "x = dq")
    case True
    with rest show ?thesis by simp
  next
    case False
    obtain d s where ds: "escape_quotes xs @ dq # w = d # s"
      by (cases "escape_quotes xs @ dq # w") auto
    from rest have "star_quoted (d # s) = (escape_quotes xs, dq # w) # rest"
      by (simp only: ds)
    with False show ?thesis by (simp add: ds)
  qed
qed

lemma isspace_facts [simp]: "\<not> isspace dq" "\<not> isspace comma"
  by (simp_all add: isspace_def dq_def comma_def)

lemma field_end_greedy:
  assumes "list_all isspace ws" "tail = [] \<or> (\<exists>t. tail = comma # t)"
  shows "\<exists>rest. field_end (ws @ tail) = tl tail # rest"
proof -
  from assms(2) have "tail = [] \<or> \<not> isspace (hd tail)" by auto
  from star_class_greedy [OF assms(1) this]
  obtain rest where "star_class isspace (ws @ tail) = (ws, tail) # rest" by blast
  moreover from assms(2) have "\<exists>rest. comma_or_end tail = tl tail # rest"
    by (auto simp: comma_or_end_def at_dollar_def)
  ultimately show ?thesis
    by (auto simp: field_end_def)
qed

lemma quoted_field_greedy:
  assumes "list_all isspace ws2" "tail = [] \<or> (\<exists>t. tail = comma # t)"
  shows "\<exists>rest. quoted_field (dq # escape_quotes c @ dq # ws2 @ tail) =
           \<lparr>group1 = Some (escape_quotes c), group2 = None, after = tl tail\<rparr> # rest"
proof -
  from assms have "ws2 @ tail = [] \<or> hd (ws2 @ tail) \<noteq> dq"
    by (cases ws2) (auto simp: comma_def dq_def isspace_def)
  from star_quoted_greedy [OF this, of c]
  obtain r1 where r1: "star_quoted (escape_quotes c @ dq # ws2 @ tail) =
      (escape_quotes c, dq # ws2 @ tail) # r1"
    by blast
  from field_end_greedy [OF assms] obtain r2 where r2: "field_end (ws2 @ tail) = tl tail # r2"
    by blast
  show ?thesis
    by (simp add: quoted_field_def r1 r2)
qed

lemma pattern_matches_quoted:
  assumes "list_all isspace ws1" "list_all isspace ws2" "tail = [] \<or> (\<exists>t. tail = comma # t)"
  shows "\<exists>rest. pattern_matches (ws1 @ dq # escape_quotes c @ dq # ws2 @ tail) =
           \<lparr>group1 = Some (escape_quotes c), group2 = None, after = tl tail\<rparr> # rest"
proof -
  have "dq # escape_quotes c @ dq # ws2 @ tail = [] \<or>
        \<not> isspace (hd (dq # escape_quotes c @ dq # ws2 @ tail))"
    by simp
  from star_class_greedy [OF assms(1) this]
  obtain r1 where r1: "star_class isspace (ws1 @ dq # escape_quotes c @ dq # ws2 @ tail) =
      (ws1, dq # escape_quotes c @ dq # ws2 @ tail) # r1"
    by blast
  from quoted_field_greedy [OF assms(2,3), of c]
  obtain r2 where r2: "quoted_field (dq # escape_quotes c @ dq # ws2 @ tail) =
           \<lparr>group1 = Some (escape_quotes c), group2 = None, after = tl tail\<rparr> # r2"
    by blast
  show ?thesis
    by (simp add: pattern_matches_def r1 r2)
qed

lemma finditer_quoted:
  assumes "list_all isspace ws1" "list_all isspace ws2" "tail = [] \<or> (\<exists>t. tail = comma # t)"
  shows "finditer (ws1 @ dq # escape_quotes c @ dq # ws2 @ tail) =
           \<lparr>group1 = Some (escape_quotes c), group2 = None, after = tl tail\<rparr> # finditer (tl tail)"
proof -
  let ?s = "ws1 @ dq # escape_quotes c @ dq # ws2 @ tail"
  let ?m = "\<lparr>group1 = Some (escape_quotes c), group2 = None, after = tl tail\<rparr>"
  from pattern_matches_quoted [OF assms, of c]
  have m: "match_at False ?s = Some ?m"
    by (auto simp: match_at_def)
  obtain x xs where s: "?s = x # xs" by (cases ?s) auto
  from m have "search False ?s = Some (?s, ?m)"
    unfolding s by simp
  moreover have "length (tl tail) < length ?s"
    by (cases tail) simp_all
  ultimately show ?thesis
    by (simp add: finditer_def finditer_from.simps [of False ?s])
qed

lemma group_or_group1: "group2 m = None \<Longrightarrow> group1 m = Some g \<Longrightarrow> group_or m = g"
  by (cases g) (simp_all add: group_or_def)

lemma field_texts_quoted:
  assumes "list_all isspace ws1" "list_all isspace ws2" "tail = [] \<or> (\<exists>t. tail = comma # t)"
  shows "field_texts (ws1 @ dq # escape_quotes c @ dq # ws2 @ tail) =
           strip c # field_texts (tl tail)"
  by (simp add: field_texts_def finditer_quoted [OF assms] field_text_def group_or_group1
      replace_escape)

text \<open>An unquoted field that a comma follows, and a line of such fields.\<close>

lemma quoted_field_none: "s = [] \<or> hd s \<noteq> dq \<Longrightarrow> quoted_field s = []"
  by (cases s) (auto simp: quoted_field_def)

lemma unquoted_field_greedy:
  assumes "list_all unquoted_char r"
  shows "\<exists>rest. unquoted_field (r @ comma # t) =
           \<lparr>group1 = None, group2 = Some r, after = t\<rparr> # rest"
proof -
  have "comma # t = [] \<or> \<not> unquoted_char (hd (comma # t))"
    by (simp add: unquoted_char_def)
  from star_class_greedy [OF assms this]
  obtain r1 where r1: "star_class unquoted_char (r @ comma # t) = (r, comma # t) # r1"
    by blast
  have "list_all isspace []" "comma # t = [] \<or> (\<exists>t'. comma # t = comma # t')"
    by simp_all
  from field_end_greedy [OF this] obtain r2 where r2: "field_end (comma # t) = t # r2"
    by auto
  show ?thesis
    by (simp add: unquoted_field_def r1 r2)
qed

lemma pattern_matches_unquoted:
  assumes "list_all unquoted_char u"
  shows "\<exists>rest. pattern_matches (u @ comma # t) =
           \<lparr>group1 = None, group2 = Some (dropWhile isspace u), after = t\<rparr> # rest"
proof -
  let ?w = "takeWhile isspace u"
  let ?r = "dropWhile isspace u"
  have ws: "list_all isspace ?w"
    by (simp add: list_all_iff) (meson set_takeWhileD)
  have r: "list_all unquoted_char ?r"
    using assms by (auto simp: list_all_iff dest: set_dropWhileD)
  have front: "?r @ comma # t = [] \<or> \<not> isspace (hd (?r @ comma # t))"
  proof (cases ?r)
    case Nil
    have "\<not> isspace (hd ([] @ comma # t))" by simp
    then show ?thesis unfolding Nil by blast
  next
    case (Cons x xs)
    with hd_dropWhile [of isspace u] have "\<not> isspace x" by simp
    then have "\<not> isspace (hd ((x # xs) @ comma # t))" by simp
    then show ?thesis unfolding Cons by blast
  qed
  from star_class_greedy [OF ws front]
  obtain r1 where "star_class isspace (?w @ ?r @ comma # t) = (?w, ?r @ comma # t) # r1"
    by blast
  moreover have "?w @ ?r @ comma # t = u @ comma # t"
    by simp
  ultimately have r1: "star_class isspace (u @ comma # t) = (?w, ?r @ comma # t) # r1"
    by (simp only:)
  have "?r @ comma # t = [] \<or> hd (?r @ comma # t) \<noteq> dq"
  proof (cases ?r)
    case Nil
    have "hd ([] @ comma # t) \<noteq> dq" by (simp add: comma_def dq_def)
    then show ?thesis unfolding Nil by blast
  next
    case (Cons x xs)
    with r have "x \<noteq> dq" by (simp add: unquoted_char_def)
    then have "hd ((x # xs) @ comma # t) \<noteq> dq" by simp
    then show ?thesis unfolding Cons by blast
  qed
  then have q: "quoted_field (?r @ comma # t) = []"
    by (rule quoted_field_none)
  from unquoted_field_greedy [OF r, of t]
  obtain r2 where r2: "unquoted_field (?r @ comma # t) =
      \<lparr>group1 = None, group2 = Some ?r, after = t\<rparr> # r2"
    by blast
  show ?thesis
    by (simp add: pattern_matches_def r1 q r2)
qed

lemma finditer_unquoted:
  assumes "list_all unquoted_char u"
  shows "finditer (u @ comma # t) =
           \<lparr>group1 = None, group2 = Some (dropWhile isspace u), after = t\<rparr> # finditer t"
proof -
  let ?s = "u @ comma # t"
  let ?m = "\<lparr>group1 = None, group2 = Some (dropWhile isspace u), after = t\<rparr>"
  from pattern_matches_unquoted [OF assms, of t]
  have m: "match_at False ?s = Some ?m"
    by (auto simp: match_at_def)
  obtain x xs where s: "?s = x # xs" by (cases ?s) auto
  from m have "search False ?s = Some (?s, ?m)"
    unfolding s by simp
  then show ?thesis
    by (simp add: finditer_def finditer_from.simps [of False ?s])
qed

lemma replace_dq_none: "dq \<notin> set s \<Longrightarrow> replace_dq s = s"
  by (induction s rule: replace_dq.induct) auto

lemma group_or_group2: "group1 m = None \<Longrightarrow> group2 m = Some g \<Longrightarrow> group_or m = g"
  by (cases g) (simp_all add: group_or_def)

lemma field_texts_unquoted:
  assumes "list_all unquoted_char u"
  shows "field_texts (u @ comma # t) = strip u # field_texts t"
proof -
  from assms have "dq \<notin> set (dropWhile isspace u)"
    by (auto simp: list_all_iff unquoted_char_def dest: set_dropWhileD)
  then have "replace_dq (dropWhile isspace u) = dropWhile isspace u"
    by (rule replace_dq_none)
  then show ?thesis
    by (simp add: field_texts_def finditer_unquoted [OF assms] field_text_def group_or_group2
        strip_def lstrip_def)
qed

lemma field_texts_written:
  assumes "well_written f"
  shows "field_texts (written f @ comma # t) = strip (content f) # field_texts t"
proof (cases f)
  case (Quoted ws1 c ws2)
  with assms have ws: "list_all isspace ws1" "list_all isspace ws2"
    by simp_all
  have "comma # t = [] \<or> (\<exists>t'. comma # t = comma # t')"
    by simp
  from field_texts_quoted [OF ws this, of c] show ?thesis
    by (simp add: Quoted)
next
  case (Unquoted u)
  with assms have "list_all unquoted_char u"
    by simp
  from field_texts_unquoted [OF this, of t] show ?thesis
    by (simp add: Unquoted)
qed

lemma field_texts_fields:
  assumes "list_all well_written fs"
  shows "field_texts (concat (map (\<lambda>f. written f @ [comma]) fs) @ t) =
           map (\<lambda>f. strip (content f)) fs @ field_texts t"
  using assms
proof (induction fs)
  case Nil
  show ?case by simp
next
  case (Cons f fs)
  then have f: "well_written f" and fs: "list_all well_written fs"
    by simp_all
  have "field_texts (written f @ comma # concat (map (\<lambda>f. written f @ [comma]) fs) @ t) =
      strip (content f) # field_texts (concat (map (\<lambda>f. written f @ [comma]) fs) @ t)"
    using f by (rule field_texts_written)
  with Cons.IH [OF fs] show ?case
    by simp
qed

text \<open>In every match of the pattern, one of the two groups took no part.\<close>

lemma quoted_field_group2: "m \<in> set (quoted_field s) \<Longrightarrow> group2 m = None"
  by (auto simp: quoted_field_def split: list.splits if_splits)

lemma unquoted_field_group1: "m \<in> set (unquoted_field s) \<Longrightarrow> group1 m = None"
  by (auto simp: unquoted_field_def)

lemma pattern_matches_groups:
  "m \<in> set (pattern_matches s) \<Longrightarrow> group1 m = None \<or> group2 m = None"
  by (auto simp: pattern_matches_def dest: quoted_field_group2 unquoted_field_group1)

lemma match_at_groups: "match_at adv s = Some m \<Longrightarrow> group1 m = None \<or> group2 m = None"
  by (rule pattern_matches_groups [of m s]) (auto simp: match_at_def find_Some_iff)

lemma search_groups: "search adv s = Some (st, m) \<Longrightarrow> group1 m = None \<or> group2 m = None"
proof (induction s arbitrary: adv)
  case Nil
  then show ?case
    by (auto split: option.splits dest: match_at_groups)
next
  case (Cons c s)
  show ?case
  proof (cases "match_at adv (c # s)")
    case None
    with Cons.prems have "search False s = Some (st, m)" by simp
    then show ?thesis by (rule Cons.IH)
  next
    case (Some m')
    with Cons.prems have "m' = m" by simp
    with Some show ?thesis by (auto dest: match_at_groups)
  qed
qed

lemma finditer_from_groups:
  "m \<in> set (finditer_from adv s) \<Longrightarrow> group1 m = None \<or> group2 m = None"
proof (induction adv s rule: finditer_from.induct)
  case (1 adv s)
  show ?case
  proof (cases "search adv s")
    case None
    have "finditer_from adv s = []"
      by (simp only: finditer_from.simps [of adv s] None option.case)
    with "1.prems" have "m \<in> set []"
      by (simp only:)
    then show ?thesis
      by simp
  next
    case (Some p)
    obtain st m0 where p: "p = (st, m0)" by (cases p)
    with Some have s: "search adv s = Some (st, m0)" by simp
    have "finditer_from adv s = m0 # finditer_from (length (after m0) = length st) (after m0)"
      by (simp only: finditer_from.simps [of adv s] s option.case prod.case)
    with "1.prems" have "m = m0 \<or> m \<in> set (finditer_from (length (after m0) = length st) (after m0))"
      by (simp only: set_simps insert_iff)
    then show ?thesis
    proof
      assume "m = m0"
      with search_groups [OF s] show ?thesis by simp
    next
      assume "m \<in> set (finditer_from (length (after m0) = length st) (after m0))"
      then show ?thesis by (rule "1.IH" [OF Some p [symmetric]])
    qed
  qed
qed

lemma quoted_match_text:
  assumes "m \<in> set (finditer line)" "group1 m = Some g"
  shows "field_text m = strip (replace_dq g)"
proof -
  from assms(1) have "m \<in> set (finditer_from False line)"
    by (simp only: finditer_def)
  then have "group1 m = None \<or> group2 m = None"
    by (rule finditer_from_groups)
  with assms(2) have "group2 m = None"
    by simp
  from group_or_group1 [OF this assms(2)] show ?thesis
    by (simp add: field_text_def)
qed

text \<open>
  Claim C3 as amended: in a line, after any number of fields that are each followed by
  a comma and are each either quoted or a text without a double quote and without a
  comma, let there be a quoted field, that is white space, a double quote, the content
  \<open>c\<close> with every quote doubled, a double quote and white space, and then a comma or
  the end of the line. The field of that quoted text is \<open>c\<close> with the white space at
  its two ends removed, also when that white space stood inside the quotes; the fields
  before it are the contents of the fields before it, each without the white space at
  its ends, and the fields after it are those of the text after the comma. And in any
  line whatever, the field of a match whose first group is the quoted content \<open>g\<close> is
  \<open>g\<close> with every two double quotes replaced by one and then without the white space
  at its two ends.
\<close>

theorem quoted_field_text:
  assumes "list_all well_written fs"
    and "list_all isspace ws1" "list_all isspace ws2"
    and "tail = [] \<or> (\<exists>t. tail = comma # t)"
  shows "field_texts (concat (map (\<lambda>f. written f @ [comma]) fs) @
                      ws1 @ dq # escape_quotes c @ dq # ws2 @ tail) =
           map (\<lambda>f. strip (content f)) fs @ strip c # field_texts (tl tail) \<and>
         (\<forall>m \<in> set (finditer line). \<forall>g. group1 m = Some g \<longrightarrow>
            field_text m = strip (replace_dq g))"
proof (intro conjI ballI allI impI)
  show "field_texts (concat (map (\<lambda>f. written f @ [comma]) fs) @
                      ws1 @ dq # escape_quotes c @ dq # ws2 @ tail) =
           map (\<lambda>f. strip (content f)) fs @ strip c # field_texts (tl tail)"
    by (simp only: field_texts_fields [OF assms(1)] field_texts_quoted [OF assms(2,3,4)])
next
  fix m g assume "m \<in> set (finditer line)" "group1 m = Some g"
  then show "field_text m = strip (replace_dq g)"
    by (rule quoted_match_text)
qed

theorem quoted_field_text_witness:
  "list_all well_written [Unquoted (py ''a '')] \<and>
   list_all isspace (py '' '') \<and> list_all isspace [] \<and>
   (py '',d'' = [] \<or> (\<exists>t. py '',d'' = comma # t)) \<and>
   field_texts (concat (map (\<lambda>f. written f @ [comma]) [Unquoted (py ''a '')]) @
                py '' '' @ dq # escape_quotes (dq # py '' b,c '') @ dq # [] @ py '',d'') =
     map (\<lambda>f. strip (content f)) [Unquoted (py ''a '')] @
     strip (dq # py '' b,c '') # field_texts (tl (py '',d'')) \<and>
   concat (map (\<lambda>f. written f @ [comma]) [Unquoted (py ''a '')]) @
     py '' '' @ dq # escape_quotes (dq # py '' b,c '') @ dq # [] @ py '',d'' =
     py ''a , '' @ [dq, dq, dq] @ py '' b,c '' @ [dq] @ py '',d'' \<and>
   map (\<lambda>f. strip (content f)) [Unquoted (py ''a '')] @
     strip (dq # py '' b,c '') # field_texts (tl (py '',d'')) =
     [py ''a'', dq # py '' b,c'', py ''d'', []] \<and>
   finditer (py ''x'' @ dq # py '' a '' @ [dq]) ! 0 \<in> set (finditer (py ''x'' @ dq # py '' a '' @ [dq])) \<and>
   group1 (finditer (py ''x'' @ dq # py '' a '' @ [dq]) ! 0) = Some (py '' a '') \<and>
   field_text (finditer (py ''x'' @ dq # py '' a '' @ [dq]) ! 0) = strip (replace_dq (py '' a '')) \<and>
   strip (replace_dq (py '' a '')) = py ''a''"
proof -
  let ?line = "py ''x'' @ dq # py '' a '' @ [dq]"
  have h: "list_all well_written [Unquoted (py ''a '')]"
    "list_all isspace (py '' '')" "list_all isspace []"
    "py '',d'' = [] \<or> (\<exists>t. py '',d'' = comma # t)"
    by (simp_all add: str_defs unquoted_char_def)
  have e: "concat (map (\<lambda>f. written f @ [comma]) [Unquoted (py ''a '')]) @
      py '' '' @ dq # escape_quotes (dq # py '' b,c '') @ dq # [] @ py '',d'' =
      py ''a , '' @ [dq, dq, dq] @ py '' b,c '' @ [dq] @ py '',d''"
    "map (\<lambda>f. strip (content f)) [Unquoted (py ''a '')] @
      strip (dq # py '' b,c '') # field_texts (tl (py '',d'')) =
      [py ''a'', dq # py '' b,c'', py ''d'', []]"
    by (simp_all add: str_defs re_defs)
  have f: "finditer ?line =
      [\<lparr>group1 = Some (py '' a ''), group2 = None, after = []\<rparr>,
       \<lparr>group1 = None, group2 = Some [], after = []\<rparr>]"
    by (simp add: str_defs re_defs)
  then have m: "finditer ?line ! 0 \<in> set (finditer ?line)"
    "group1 (finditer ?line ! 0) = Some (py '' a '')"
    by simp_all
  have s: "strip (replace_dq (py '' a '')) = py ''a''"
    by (simp add: str_defs)
  note inst = quoted_field_text [OF h, of "dq # py '' b,c ''" ?line]
  from inst have 1: "field_texts (concat (map (\<lambda>f. written f @ [comma]) [Unquoted (py ''a '')]) @
                py '' '' @ dq # escape_quotes (dq # py '' b,c '') @ dq # [] @ py '',d'') =
     map (\<lambda>f. strip (content f)) [Unquoted (py ''a '')] @
     strip (dq # py '' b,c '') # field_texts (tl (py '',d''))"
    by (rule conjunct1)
  from inst m have 2: "field_text (finditer ?line ! 0) = strip (replace_dq (py '' a ''))"
    by blast
  from h 1 e m 2 s show ?thesis
    by (intro conjI)
qed

section \<open>The type of a value (claim C4)\<close>

text \<open>
  Claim C4 says that \<open>convert_value\<close> gives an Integer if and only if the text is an
  optional sign followed by decimal digits only, with no separator between the digits.
  \<open>int()\<close> takes an underscore between two digits: the text \<open>1_000\<close> is not a
  sign followed by digits only, and \<open>convert_value\<close> gives the Integer 1000 for it.
\<close>

theorem underscore_integer:
  "convert_value (0, 0) (py ''1_000'') = PInt 1000 \<and> \<not> plain_integer (py ''1_000'')"
  by (simp add: str_defs re_defs conv_defs df_defs plain_integer_def)

text \<open>The digits that \<open>int()\<close> scans are those of the literals defined above.\<close>

lemma digit_not_underscore [simp]: "is_digit c \<Longrightarrow> c \<noteq> underscore"
  by (auto simp: is_digit_def underscore_def)

lemma not_digit_underscore [simp]: "\<not> is_digit underscore"
  by (simp add: is_digit_def underscore_def)

lemma digit_groups_hd: "digit_groups body \<Longrightarrow> body \<noteq> [] \<and> is_digit (hd body)"
  by (induction body rule: digit_groups.induct) auto

lemma digit_groups_digits: "digit_groups body \<Longrightarrow> filter is_digit body \<noteq> []"
  by (induction body rule: digit_groups.induct) auto

lemma scan_digits_stop:
  assumes "is_digit p" "r = [] \<or> (\<not> is_digit (hd r) \<and> hd r \<noteq> underscore)"
  shows "scan_digits p r = Some ([], r)"
  using assms by (cases r) auto

lemma scan_groups:
  assumes "digit_groups body" "r = [] \<or> (\<not> is_digit (hd r) \<and> hd r \<noteq> underscore)"
  shows "scan_digits p (body @ r) = Some (filter is_digit body, r)"
  using assms(1)
proof (induction body arbitrary: p rule: digit_groups.induct)
  case 1
  then show ?case by simp
next
  case (2 c)
  then have c: "is_digit c" by simp
  with scan_digits_stop [OF c assms(2)] show ?case by simp
next
  case (3 c d s)
  then have c: "is_digit c" by simp
  show ?case
  proof (cases "d = underscore")
    case True
    with 3 have "digit_groups s" by simp
    with 3(1) [OF True] have "scan_digits underscore (s @ r) = Some (filter is_digit s, r)"
      by simp
    with c True show ?thesis by simp
  next
    case False
    with 3 have "digit_groups (d # s)" by simp
    with 3(2) [OF False] have "scan_digits c ((d # s) @ r) = Some (filter is_digit (d # s), r)"
      by simp
    with c show ?thesis by simp
  qed
qed

lemma scan_digits_inv:
  "scan_digits p s = Some (ds, r) \<Longrightarrow>
     (s \<noteq> [] \<and> is_digit (hd s) \<longrightarrow>
        (\<exists>body. s = body @ r \<and> digit_groups body \<and> ds = filter is_digit body)) \<and>
     (s \<noteq> [] \<and> hd s = underscore \<longrightarrow>
        (\<exists>body. tl s = body @ r \<and> digit_groups body \<and> ds = filter is_digit body)) \<and>
     (r = [] \<or> (\<not> is_digit (hd r) \<and> hd r \<noteq> underscore))"
proof (induction p s arbitrary: ds r rule: scan_digits.induct)
  case (1 prev)
  then show ?case by (simp split: if_splits)
next
  case (2 prev c s)
  show ?case
  proof (cases "c = underscore")
    case True
    with "2.prems" have neq: "prev \<noteq> underscore" and sc: "scan_digits c s = Some (ds, r)"
      by (simp_all split: if_splits)
    note ih = "2.IH"(1) [OF True neq sc]
    from sc True have "s \<noteq> [] \<and> is_digit (hd s)"
      by (cases s) (auto split: if_splits)
    with ih True show ?thesis by simp
  next
    case False
    show ?thesis
    proof (cases "is_digit c")
      case digit: True
      with "2.prems" False obtain ds' where sc: "scan_digits c s = Some (ds', r)" and ds: "ds = c # ds'"
        by auto
      note ih = "2.IH"(2) [OF False digit sc]
      have "\<exists>body. c # s = body @ r \<and> digit_groups body \<and> ds = filter is_digit body"
      proof (cases s)
        case Nil
        with sc digit have "ds' = []" "r = []" by (simp_all split: if_splits)
        with digit ds Nil show ?thesis by (intro exI [of _ "[c]"]) simp
      next
        case (Cons y s')
        show ?thesis
        proof (cases "y = underscore")
          case True
          with ih Cons obtain body where b: "s' = body @ r" "digit_groups body"
            "ds' = filter is_digit body"
            by auto
          with digit ds Cons True show ?thesis
            by (intro exI [of _ "c # underscore # body"]) simp
        next
          case yn: False
          show ?thesis
          proof (cases "is_digit y")
            case True
            with ih Cons obtain body where b: "y # s' = body @ r" "digit_groups body"
              "ds' = filter is_digit body"
              by auto
            from digit_groups_hd [OF b(2)] obtain b0 bs where body: "body = b0 # bs"
              by (cases body) auto
            with b(1) have "b0 = y" by simp
            with b digit ds Cons yn body show ?thesis
              by (intro exI [of _ "c # body"]) simp
          next
            case False
            with sc Cons yn digit have "ds' = []" "r = s"
              by (simp_all split: if_splits)
            with digit ds show ?thesis by (intro exI [of _ "[c]"]) simp
          qed
        qed
      qed
      with ih digit False show ?thesis by simp
    next
      case nd: False
      with "2.prems" False have "ds = []" "r = c # s"
        by (simp_all split: if_splits)
      with nd False show ?thesis by simp
    qed
  qed
qed

lemma dropWhile_prefix:
  "list_all P ws \<Longrightarrow> r = [] \<or> \<not> P (hd r) \<Longrightarrow> dropWhile P (ws @ r) = r"
  by (induction ws) (auto simp: dropWhile_eq_self_iff)

lemma space_facts [simp]:
  "\<not> c_isspace plus_sign" "\<not> c_isspace minus_sign" "\<not> c_isspace underscore"
  "is_digit c \<Longrightarrow> \<not> c_isspace c" "c_isspace c \<Longrightarrow> \<not> is_digit c"
  "\<not> is_digit plus_sign" "\<not> is_digit minus_sign" "plus_sign \<noteq> underscore"
  "minus_sign \<noteq> underscore" "plus_sign \<noteq> minus_sign"
  by (auto simp: c_isspace_def plus_sign_def minus_sign_def underscore_def is_digit_def)

lemma digit_not_sign [simp]: "is_digit c \<Longrightarrow> c \<noteq> plus_sign" "is_digit c \<Longrightarrow> c \<noteq> minus_sign"
  by (auto simp: is_digit_def plus_sign_def minus_sign_def)

lemma long_from_string_parts:
  assumes s1: "dropWhile c_isspace s = sg @ s2"
    and sg: "sg = [] \<or> sg = [plus_sign] \<or> sg = [minus_sign]"
    and s2: "s2 \<noteq> []" "is_digit (hd s2)"
    and scan: "scan_digits 0 s2 = Some (ds, r)"
    and ds: "ds \<noteq> []" "int (length ds) \<le> int_max_str_digits"
    and r: "dropWhile c_isspace r = []"
  shows "long_from_string s = Some ((if sg = [minus_sign] then - 1 else 1) * decimal_value ds)"
proof -
  from s2 have nu: "hd s2 \<noteq> underscore" "hd s2 \<noteq> plus_sign" "hd s2 \<noteq> minus_sign"
    by simp_all
  from sg show ?thesis
  proof (elim disjE)
    assume "sg = []"
    with s1 s2 nu scan ds r show ?thesis
      by (simp add: long_from_string_def Let_def)
  next
    assume "sg = [plus_sign]"
    with s1 s2 nu scan ds r show ?thesis
      by (simp add: long_from_string_def Let_def)
  next
    assume "sg = [minus_sign]"
    with s1 s2 nu scan ds r show ?thesis
      by (simp add: long_from_string_def Let_def)
  qed
qed

lemma long_from_string_accepts:
  "(\<exists>n. long_from_string s = Some n) \<longleftrightarrow> int_literal s"
proof
  assume "int_literal s"
  then obtain ws1 sg body ws2 where d: "s = ws1 @ sg @ body @ ws2" "list_all c_isspace ws1"
    "list_all c_isspace ws2" "sg = [] \<or> sg = [plus_sign] \<or> sg = [minus_sign]"
    "digit_groups body" "int (length (filter is_digit body)) \<le> int_max_str_digits"
    unfolding int_literal_def by (elim exE conjE)
  from digit_groups_hd [OF d(5)] have body: "body \<noteq> []" "is_digit (hd body)"
    by simp_all
  then have s2: "body @ ws2 \<noteq> []" "is_digit (hd (body @ ws2))"
    by simp_all
  have "sg @ body @ ws2 = [] \<or> \<not> c_isspace (hd (sg @ body @ ws2))"
    using d(4) body by (elim disjE) simp_all
  then have s1: "dropWhile c_isspace s = sg @ body @ ws2"
    unfolding d(1) by (rule dropWhile_prefix [OF d(2)])
  have tail: "ws2 = [] \<or> (\<not> is_digit (hd ws2) \<and> hd ws2 \<noteq> underscore)"
    using d(3) by (cases ws2) auto
  have scan: "scan_digits 0 (body @ ws2) = Some (filter is_digit body, ws2)"
    using d(5) tail by (rule scan_groups)
  have r: "dropWhile c_isspace ws2 = []"
    using d(3) by (simp add: list_all_iff)
  from long_from_string_parts [OF s1 d(4) s2 scan digit_groups_digits [OF d(5)] d(6) r]
  show "\<exists>n. long_from_string s = Some n"
    by blast
next
  assume "\<exists>n. long_from_string s = Some n"
  then obtain n where n: "long_from_string s = Some n" by blast
  define s1 where "s1 = dropWhile c_isspace s"
  define sg where "sg = (if s1 \<noteq> [] \<and> (hd s1 = plus_sign \<or> hd s1 = minus_sign) then [hd s1] else [])"
  define s2 where "s2 = (if s1 \<noteq> [] \<and> (hd s1 = plus_sign \<or> hd s1 = minus_sign) then tl s1 else s1)"
  have s: "s = takeWhile c_isspace s @ s1"
    by (simp add: s1_def)
  have s1: "s1 = sg @ s2"
    by (simp add: sg_def s2_def)
  define rest where "rest = (\<lambda>neg s2.
    if s2 \<noteq> [] \<and> hd s2 = underscore then None
    else (case scan_digits 0 s2 of
            None \<Rightarrow> None
          | Some (ds, r) \<Rightarrow>
              if ds = [] then None
              else if dropWhile c_isspace r \<noteq> [] then None
              else if int_max_str_digits < int (length ds) then None
              else Some ((if neg then - 1 else 1) * decimal_value ds)))"
  have "long_from_string s = rest (s1 \<noteq> [] \<and> hd s1 = minus_sign) s2"
    unfolding long_from_string_def Let_def rest_def s1_def s2_def ..
  with n have rest: "rest (s1 \<noteq> [] \<and> hd s1 = minus_sign) s2 = Some n"
    by simp
  then have nu: "\<not> (s2 \<noteq> [] \<and> hd s2 = underscore)"
    unfolding rest_def by (simp split: if_splits)
  from rest obtain ds r where scan: "scan_digits 0 s2 = Some (ds, r)" and ds: "ds \<noteq> []"
    and r: "dropWhile c_isspace r = []" and lim: "int (length ds) \<le> int_max_str_digits"
    unfolding rest_def by (simp split: if_splits option.splits prod.splits)
  have "s2 \<noteq> [] \<and> is_digit (hd s2)"
  proof (cases s2)
    case Nil
    with scan ds show ?thesis by (simp split: if_splits)
  next
    case (Cons c s')
    with nu have "c \<noteq> underscore" by simp
    with scan ds Cons show ?thesis by (auto split: if_splits)
  qed
  with scan_digits_inv [OF scan] obtain body where body: "s2 = body @ r" "digit_groups body"
    "ds = filter is_digit body"
    by blast
  from r have "list_all c_isspace r"
    by (simp add: dropWhile_eq_Nil_conv list_all_iff)
  moreover have "list_all c_isspace (takeWhile c_isspace s)"
    by (simp add: list_all_iff) (meson set_takeWhileD)
  moreover have "sg = [] \<or> sg = [plus_sign] \<or> sg = [minus_sign]"
    by (auto simp: sg_def)
  moreover have "s = takeWhile c_isspace s @ sg @ body @ r"
    using s s1 body(1) by simp
  ultimately have "s = takeWhile c_isspace s @ sg @ body @ r \<and>
      list_all c_isspace (takeWhile c_isspace s) \<and> list_all c_isspace r \<and>
      (sg = [] \<or> sg = [plus_sign] \<or> sg = [minus_sign]) \<and> digit_groups body \<and>
      int (length (filter is_digit body)) \<le> int_max_str_digits"
    using body(2,3) lim by simp
  then show "int_literal s"
    unfolding int_literal_def by (intro exI)
qed

lemma py_int_accepts: "(\<exists>n. py_int val = Some n) \<longleftrightarrow> int_literal (to_ascii val)"
  by (simp add: py_int_def long_from_string_accepts)


lemma convert_value_PInt:
  "val \<noteq> [] \<Longrightarrow> (\<exists>n. convert_value new val = PInt n) \<longleftrightarrow> (\<exists>n. py_int (unquote val) = Some n)"
  by (simp add: convert_value_def split: option.splits)

lemma convert_value_PFloat:
  "val \<noteq> [] \<Longrightarrow>
     (\<exists>x. convert_value new val = PFloat x) \<longleftrightarrow>
       py_int (unquote val) = None \<and> py_float new (unquote val) \<noteq> None"
  by (auto simp: convert_value_def split: option.splits)

lemma convert_value_PStr:
  "val \<noteq> [] \<Longrightarrow>
     convert_value new val = PStr t \<longleftrightarrow>
       py_int (unquote val) = None \<and> py_float new (unquote val) = None \<and> t = unquote val"
  by (auto simp: convert_value_def split: option.splits)

lemma py_int_refuses: "py_int val = None \<longleftrightarrow> \<not> int_literal (to_ascii val)"
  using py_int_accepts [of val] by auto

text \<open>
  Claim C4 as amended: \<open>convert_value\<close> gives the empty Text for the empty text. For
  any other text, let \<open>u\<close> be the text without its pair of outer double quotes, when
  it has at least two characters and a double quote at each end. The result is an
  Integer if and only if \<open>u\<close>, with its decimal digits and its spaces read as ASCII, is
  white space, an optional sign, decimal digits in which a single underscore may stand
  between two digits, and white space, with at most 4300 digits; otherwise it is a
  Float if and only if \<open>float()\<close> takes \<open>u\<close>; otherwise it is the Text \<open>u\<close>.
\<close>

theorem convert_value_cases:
  "convert_value new [] = PStr [] \<and>
   (val \<noteq> [] \<longrightarrow>
      ((\<exists>n. convert_value new val = PInt n) \<longleftrightarrow> int_literal (to_ascii (unquote val))) \<and>
      ((\<exists>x. convert_value new val = PFloat x) \<longleftrightarrow>
         \<not> int_literal (to_ascii (unquote val)) \<and> py_float new (unquote val) \<noteq> None) \<and>
      (convert_value new val = PStr t \<longleftrightarrow>
         \<not> int_literal (to_ascii (unquote val)) \<and> py_float new (unquote val) = None \<and>
         t = unquote val))"
proof (intro conjI impI)
  show "convert_value new [] = PStr []"
    by (simp add: convert_value_def)
next
  assume "val \<noteq> []"
  then show "(\<exists>n. convert_value new val = PInt n) \<longleftrightarrow> int_literal (to_ascii (unquote val))"
    by (simp add: convert_value_PInt py_int_accepts)
next
  assume "val \<noteq> []"
  then show "(\<exists>x. convert_value new val = PFloat x) \<longleftrightarrow>
      \<not> int_literal (to_ascii (unquote val)) \<and> py_float new (unquote val) \<noteq> None"
    by (simp add: convert_value_PFloat py_int_refuses)
next
  assume "val \<noteq> []"
  then show "convert_value new val = PStr t \<longleftrightarrow>
      \<not> int_literal (to_ascii (unquote val)) \<and> py_float new (unquote val) = None \<and>
      t = unquote val"
    by (simp add: convert_value_PStr py_int_refuses)
qed

theorem convert_value_cases_witness:
  "py ''1_000'' \<noteq> [] \<and> convert_value (0, 0) (py ''1_000'') = PInt 1000 \<and>
   int_literal (to_ascii (unquote (py ''1_000'')))"
proof -
  have ne: "py ''1_000'' \<noteq> []"
    by (simp add: str_defs)
  have e: "convert_value (0, 0) (py ''1_000'') = PInt 1000"
    by (simp add: str_defs re_defs conv_defs df_defs)
  from convert_value_cases [of "(0, 0)" "py ''1_000''"] ne e
  have "int_literal (to_ascii (unquote (py ''1_000'')))"
    by blast
  with ne e show ?thesis
    by (intro conjI)
qed

section \<open>An empty first line (claim C5)\<close>

text \<open>
  Claim C5 says that the first line that is not empty is the header, also when empty
  lines come before it. The header is assigned for the line of index 0 only, and an empty
  line is skipped before that test: after an empty first line the first data line reads
  a \<open>header\<close> that was never assigned, and \<open>read_csv\<close> raises.
\<close>

theorem read_csv_empty_first_line:
  "read_csv [[nl], py ''a,b'' @ [nl], py ''1,2'' @ [nl]] (py '','') = Inl UnboundLocalError"
  by (simp add: str_defs re_defs conv_defs df_defs)

section \<open>No line that is not empty (claim C6)\<close>

text \<open>
  Claim C6 says that parsing an input without a line that is not empty returns a table
  of no columns and no rows. \<open>columns\<close> is still \<open>None\<close> then, and the constructor
  raises on \<open>data.keys()\<close>: for a file of no lines, and for one of empty lines only.
\<close>

theorem read_csv_no_lines:
  "read_csv [] (py '','') = Inl AttributeError \<and>
   read_csv [[nl], [cr, nl]] (py '','') = Inl AttributeError"
  by (simp add: str_defs re_defs conv_defs df_defs)


section \<open>Dictionary keys, dictionaries and loops\<close>

lemma float_key_eq_iff: "float_key_eq x y \<longleftrightarrow> float_key x = float_key y"
  by (cases x; cases y) auto

lemma float_value_iff: "float_value x = Some q \<longleftrightarrow> float_key x = KNum q"
  by (cases x) auto

lemma float_key_not_str [simp]: "float_key x \<noteq> KStr s" "KStr s \<noteq> float_key x"
  by (cases x; simp)+

lemma key_eq_iff: "key_eq x y \<longleftrightarrow> key_of x = key_of y"
  by (cases x; cases y) (auto simp: float_key_eq_iff float_value_iff)

lemma key_eq_refl [simp]: "key_eq x x"
  by (simp add: key_eq_iff)

lemma key_eq_sym: "key_eq x y \<Longrightarrow> key_eq y x"
  by (simp add: key_eq_iff)

lemma key_eq_trans: "key_eq x y \<Longrightarrow> key_eq y z \<Longrightarrow> key_eq x z"
  by (simp add: key_eq_iff)

lemma distinct_keys_append:
  "distinct_keys (a @ b) \<longleftrightarrow>
     distinct_keys a \<and> distinct_keys b \<and> (\<forall>x \<in> set a. \<forall>y \<in> set b. \<not> key_eq x y)"
  by (induction a) auto

lemma dict_get_append:
  "\<forall>k' \<in> fst ` set p. \<not> key_eq k' k \<Longrightarrow> dict_get (p @ q) k = dict_get q k"
  by (induction p) auto

lemma dict_set_append:
  "\<forall>k' \<in> fst ` set p. \<not> key_eq k' k \<Longrightarrow> dict_set (p @ q) k v = p @ dict_set q k v"
  by (induction p) auto

lemma dict_set_fresh:
  "\<forall>k' \<in> fst ` set d. \<not> key_eq k' k \<Longrightarrow> dict_set d k v = d @ [(k, v)]"
  using dict_set_append [of d k "[]" v] by simp

lemma dict_contains_iff: "dict_contains d k \<longleftrightarrow> (\<exists>k' \<in> fst ` set d. key_eq k' k)"
  by (induction d) auto

lemma dict_get_range: "dict_get d k = Inr v \<Longrightarrow> v \<in> snd ` set d"
  by (induction d) (force split: if_splits)+

lemma dict_get_contains: "dict_contains d k \<Longrightarrow> \<exists>v. dict_get d k = Inr v"
  by (induction d) auto

lemma dict_set_range: "x \<in> snd ` set (dict_set d k v) \<Longrightarrow> x = v \<or> x \<in> snd ` set d"
  by (induction d) (force split: if_splits)+

lemma dict_set_keys:
  "map fst (dict_set d k v) = (if dict_contains d k then map fst d else map fst d @ [k])"
  by (induction d) auto

lemma distinct_keys_dict_set:
  "distinct_keys (map fst d) \<Longrightarrow> distinct_keys (map fst (dict_set d k v))"
  by (auto simp: dict_set_keys distinct_keys_append dict_contains_iff dest: key_eq_sym)

lemma for_loop_append:
  "for_loop body s (xs @ ys) =
     (case for_loop body s xs of Inl e \<Rightarrow> Inl e | Inr s' \<Rightarrow> for_loop body s' ys)"
  by (induction xs arbitrary: s) (auto split: sum.splits)

lemma for_loop_invariant:
  assumes "P s"
    and "\<And>s x. x \<in> set xs \<Longrightarrow> P s \<Longrightarrow> \<exists>s'. body s x = Inr s' \<and> P s'"
  shows "\<exists>s'. for_loop body s xs = Inr s' \<and> P s'"
  using assms
proof (induction xs arbitrary: s)
  case Nil
  then show ?case by simp
next
  case (Cons x xs)
  from Cons.prems(2) [of x s] Cons.prems(1)
  obtain s1 where s1: "body s x = Inr s1" "P s1" by auto
  from Cons.IH [OF s1(2)] Cons.prems(2)
  obtain s' where "for_loop body s1 xs = Inr s'" "P s'" by auto
  with s1 show ?case by auto
qed

lemma DataFrame_Some: "DataFrame (Some d) = Inr (new_dataframe d)"
  by (simp add: DataFrame_def new_dataframe_def)

lemma is_dataframe_columns: "is_dataframe df \<Longrightarrow> columns df = map fst (data df)"
  by (simp add: is_dataframe_def)

lemma is_dataframe_new: "distinct_keys (map fst d) \<Longrightarrow> is_dataframe (new_dataframe d)"
  by (simp add: is_dataframe_def new_dataframe_def)

lemma aligned_new:
  "\<forall>xs \<in> snd ` set d. length xs = n \<Longrightarrow> aligned (new_dataframe d)"
  by (cases d) (auto simp: aligned_def new_dataframe_def)

lemma cell_at:
  assumes "distinct_keys (map fst (pre @ (k, xs) # post))" "data df = pre @ (k, xs) # post"
    "i < length xs"
  shows "cell df k i = Inr (xs ! i)"
proof -
  from assms(1) have "\<forall>k' \<in> fst ` set pre. \<not> key_eq k' k"
    by (auto simp: distinct_keys_append)
  then show ?thesis
    using assms(2,3) by (simp add: cell_def dict_get_append list_get_def)
qed

lemma append_row_aux:
  assumes "distinct_keys (map fst (pre @ post))" "data df = pre @ post"
    "\<forall>xs \<in> snd ` set post. i < length xs"
  shows "for_loop (\<lambda>t col.
         case dict_get t col of
           Inl e \<Rightarrow> Inl e
         | Inr xs \<Rightarrow>
             (case cell df col i of
                Inl e \<Rightarrow> Inl e
              | Inr x \<Rightarrow> Inr (dict_set t col (xs @ [x]))))
       (map (\<lambda>(k, xs). (k, map ((!) xs) (idxs @ [i]))) pre @ map (\<lambda>(k, xs). (k, map ((!) xs) idxs)) post)
       (map fst post)
     = Inr (map (\<lambda>(k, xs). (k, map ((!) xs) (idxs @ [i]))) (pre @ post))"
  using assms
proof (induction post arbitrary: pre)
  case Nil
  then show ?case by simp
next
  case (Cons p post)
  obtain k xs where p: "p = (k, xs)" by (cases p)
  let ?h1 = "\<lambda>(k, xs). (k, map ((!) xs) (idxs @ [i]))"
  let ?h0 = "\<lambda>(k, xs). (k, map ((!) xs) idxs)"
  from Cons.prems(1) have fresh: "\<forall>k' \<in> fst ` set (map ?h1 pre). \<not> key_eq k' k"
    by (force simp: distinct_keys_append p)
  have c: "cell df k i = Inr (xs ! i)"
    using cell_at [of pre k xs post df i] Cons.prems by (simp add: p)
  have g: "dict_get (map ?h1 pre @ map ?h0 (p # post)) k = Inr (map ((!) xs) idxs)"
    using fresh by (simp add: dict_get_append p)
  have s: "dict_set (map ?h1 pre @ map ?h0 (p # post)) k (map ((!) xs) idxs @ [xs ! i])
           = map ?h1 (pre @ [p]) @ map ?h0 post"
    using fresh by (simp add: dict_set_append p)
  have "distinct_keys (map fst ((pre @ [p]) @ post))" "data df = (pre @ [p]) @ post"
    "\<forall>xs \<in> snd ` set post. i < length xs"
    using Cons.prems by auto
  from Cons.IH [OF this] show ?case
    using c g s by (simp add: p)
qed

lemma append_row_take_rows:
  assumes "is_dataframe df" "\<forall>xs \<in> snd ` set (data df). i < length xs"
  shows "append_row df i (take_rows df idxs) = Inr (take_rows df (idxs @ [i]))"
  using append_row_aux [of "[]" "data df" df i idxs] assms
  by (simp add: append_row_def take_rows_def is_dataframe_columns is_dataframe_def)

lemma take_rows_nil: "take_rows df [] = map (\<lambda>(k, xs). (k, [])) (data df)"
  by (simp add: take_rows_def)

lemma empty_columns_aux:
  "distinct_keys (map fst d @ ks) \<Longrightarrow>
   foldl (\<lambda>d col. dict_set d col []) d ks = d @ map (\<lambda>k. (k, [])) ks"
proof (induction ks arbitrary: d)
  case Nil
  then show ?case by simp
next
  case (Cons k ks)
  from Cons.prems have fresh: "\<forall>k' \<in> fst ` set d. \<not> key_eq k' k"
    by (auto simp: distinct_keys_append)
  from Cons.prems have "distinct_keys (map fst (d @ [(k, [])]) @ ks)"
    by simp
  from Cons.IH [OF this] show ?case
    using fresh by (simp add: dict_set_fresh)
qed

lemma empty_columns_distinct:
  "distinct_keys ks \<Longrightarrow> empty_columns ks = map (\<lambda>k. (k, [])) ks"
  using empty_columns_aux [of "[]" ks] by (simp add: empty_columns_def)

lemma empty_columns_take_rows:
  "is_dataframe df \<Longrightarrow> empty_columns (columns df) = take_rows df []"
  by (simp add: empty_columns_distinct is_dataframe_def take_rows_def case_prod_unfold comp_def)

lemma row_dict_aux:
  assumes "distinct_keys (map fst (pre @ post))" "data df = pre @ post"
    "\<forall>xs \<in> snd ` set post. i < length xs"
  shows "for_loop (\<lambda>row col.
         case cell df col i of Inl e \<Rightarrow> Inl e | Inr x \<Rightarrow> Inr (dict_set row col x))
       (map (\<lambda>(k, xs). (k, xs ! i)) pre) (map fst post)
     = Inr (map (\<lambda>(k, xs). (k, xs ! i)) (pre @ post))"
  using assms
proof (induction post arbitrary: pre)
  case Nil
  then show ?case by simp
next
  case (Cons p post)
  obtain k xs where p: "p = (k, xs)" by (cases p)
  let ?h = "\<lambda>(k, xs). (k, xs ! i)"
  from Cons.prems(1) have fresh: "\<forall>k' \<in> fst ` set (map ?h pre). \<not> key_eq k' k"
    by (force simp: distinct_keys_append p)
  have c: "cell df k i = Inr (xs ! i)"
    using cell_at [of pre k xs post df i] Cons.prems by (simp add: p)
  have s: "dict_set (map ?h pre) k (xs ! i) = map ?h (pre @ [p])"
    using fresh by (simp add: dict_set_fresh p)
  have "distinct_keys (map fst ((pre @ [p]) @ post))" "data df = (pre @ [p]) @ post"
    "\<forall>xs \<in> snd ` set post. i < length xs"
    using Cons.prems by auto
  from Cons.IH [OF this] show ?case
    using c s by (simp add: p)
qed

lemma row_dict_row_of:
  assumes "is_dataframe df" "\<forall>xs \<in> snd ` set (data df). i < length xs"
  shows "row_dict df i = Inr (row_of df i)"
  using row_dict_aux [of "[]" "data df" df i] assms
  by (simp add: row_dict_def row_of_def is_dataframe_def)

lemma filter_loop:
  assumes "is_dataframe df" "aligned df" "m \<le> num_rows df"
  shows "for_loop (\<lambda>filtered_data i.
               case row_dict df i of
                 Inl e \<Rightarrow> Inl e
               | Inr row \<Rightarrow> if func row then append_row df i filtered_data else Inr filtered_data)
             (take_rows df []) [0..<m]
         = Inr (take_rows df (filter (\<lambda>i. func (row_of df i)) [0..<m]))"
  using assms(3)
proof (induction m)
  case 0
  then show ?case by simp
next
  case (Suc m)
  then have lt: "\<forall>xs \<in> snd ` set (data df). m < length xs"
    using assms(2) by (auto simp: aligned_def)
  from Suc show ?case
    by (simp add: for_loop_append row_dict_row_of [OF assms(1) lt]
        append_row_take_rows [OF assms(1) lt])
qed

lemma filter_df_eq:
  assumes "is_dataframe df" "aligned df"
  shows "filter_df df func =
     Inr (new_dataframe (take_rows df (filter (\<lambda>i. func (row_of df i)) [0..<num_rows df])))"
  using filter_loop [OF assms, of "num_rows df" func]
  by (simp add: filter_df_def empty_columns_take_rows [OF assms(1)] DataFrame_Some)

lemma take_rows_keys: "map fst (take_rows df idxs) = map fst (data df)"
  by (simp add: take_rows_def case_prod_unfold comp_def)

lemma take_rows_lengths: "xs \<in> snd ` set (take_rows df idxs) \<Longrightarrow> length xs = length idxs"
  by (auto simp: take_rows_def)

lemma new_take_rows:
  assumes "is_dataframe df"
  shows "is_dataframe (new_dataframe (take_rows df idxs))"
    and "aligned (new_dataframe (take_rows df idxs))"
proof -
  from assms have "distinct_keys (map fst (take_rows df idxs))"
    by (simp add: take_rows_keys is_dataframe_def)
  then show "is_dataframe (new_dataframe (take_rows df idxs))"
    by (rule is_dataframe_new)
  have "\<forall>xs \<in> snd ` set (take_rows df idxs). length xs = length idxs"
    using take_rows_lengths by blast
  then show "aligned (new_dataframe (take_rows df idxs))"
    by (rule aligned_new)
qed

lemma select_result:
  assumes "is_dataframe df" "aligned df" "\<forall>c \<in> set cols. dict_contains (data df) c"
  shows "\<exists>df'. select df cols = Inr df' \<and> is_dataframe df' \<and> aligned df'"
proof -
  let ?P = "\<lambda>sd. distinct_keys (map fst sd) \<and> snd ` set sd \<subseteq> snd ` set (data df)"
  have "\<exists>sd. for_loop (\<lambda>selected_data col.
               case dict_get (data df) col of
                 Inl e \<Rightarrow> Inl e
               | Inr xs \<Rightarrow> Inr (dict_set selected_data col xs)) [] cols = Inr sd \<and> ?P sd"
  proof (rule for_loop_invariant)
    show "?P []" by simp
  next
    fix s x
    assume x: "x \<in> set cols" and s: "?P s"
    from x assms(3) obtain xs where g: "dict_get (data df) x = Inr xs"
      using dict_get_contains by blast
    then have "xs \<in> snd ` set (data df)" by (rule dict_get_range)
    with s have "?P (dict_set s x xs)"
      using dict_set_range [of _ s x xs] by (auto simp: distinct_keys_dict_set)
    with g show "\<exists>s'. (case dict_get (data df) x of Inl e \<Rightarrow> Inl e
                     | Inr xs \<Rightarrow> Inr (dict_set s x xs)) = Inr s' \<and> ?P s'"
      by simp
  qed
  then obtain sd where sd: "for_loop (\<lambda>selected_data col.
               case dict_get (data df) col of
                 Inl e \<Rightarrow> Inl e
               | Inr xs \<Rightarrow> Inr (dict_set selected_data col xs)) [] cols = Inr sd" "?P sd"
    by blast
  from sd(2) have "snd ` set sd \<subseteq> snd ` set (data df)" by simp
  with assms(2) have "\<forall>xs \<in> snd ` set sd. length xs = num_rows df"
    unfolding aligned_def by blast
  then have "aligned (new_dataframe sd)" by (rule aligned_new)
  with sd show ?thesis
    by (auto simp: select_def DataFrame_Some is_dataframe_new)
qed

section \<open>The loop of \<open>group_by\<close>\<close>

lemma first_rows_Suc:
  "first_rows col (Suc m) =
     first_rows col m @ (if \<forall>j<m. \<not> key_eq (col ! j) (col ! m) then [m] else [])"
  by (simp add: first_rows_def)

lemma key_rows_Suc:
  "key_rows col k (Suc m) = key_rows col k m @ (if key_eq k (col ! m) then [m] else [])"
  by (simp add: key_rows_def)

lemma first_rows_mem: "i \<in> set (first_rows col m) \<longleftrightarrow> i < m \<and> (\<forall>j<i. \<not> key_eq (col ! j) (col ! i))"
  by (auto simp: first_rows_def)

lemma distinct_first_rows: "distinct (first_rows col m)"
  by (simp add: first_rows_def)

lemma first_row_exists:
  assumes "j < m" "key_eq (col ! j) k"
  shows "\<exists>i0. i0 \<in> set (first_rows col m) \<and> key_eq (col ! i0) k \<and>
           (\<forall>i \<in> set (first_rows col m). key_eq (col ! i) k \<longrightarrow> i = i0)"
proof -
  define i0 where "i0 = (LEAST j. key_eq (col ! j) k)"
  have k0: "key_eq (col ! i0) k"
    unfolding i0_def using assms(2) by (rule LeastI)
  have le: "\<And>j. key_eq (col ! j) k \<Longrightarrow> i0 \<le> j"
    unfolding i0_def by (rule Least_le)
  have "i0 \<le> j" using assms(2) by (rule le)
  with assms(1) have "i0 < m" by simp
  have first: "\<forall>j<i0. \<not> key_eq (col ! j) (col ! i0)"
  proof (intro allI impI notI)
    fix j assume "j < i0" "key_eq (col ! j) (col ! i0)"
    then have "key_eq (col ! j) k" using k0 key_eq_trans by blast
    then have "i0 \<le> j" by (rule le)
    with \<open>j < i0\<close> show False by simp
  qed
  have uniq: "\<forall>i \<in> set (first_rows col m). key_eq (col ! i) k \<longrightarrow> i = i0"
  proof (intro ballI impI)
    fix i assume i: "i \<in> set (first_rows col m)" "key_eq (col ! i) k"
    then have "i0 \<le> i" using le by blast
    moreover have "key_eq (col ! i0) (col ! i)"
      using k0 i(2) key_eq_sym key_eq_trans by blast
    ultimately show "i = i0"
      using i(1) by (cases "i0 = i") (auto simp: first_rows_mem)
  qed
  from \<open>i0 < m\<close> first k0 uniq show ?thesis
    by (auto simp: first_rows_mem)
qed


lemma dict_get_map_unique:
  assumes "i0 \<in> set idxs" "key_eq (f i0) k" "\<forall>i \<in> set idxs. key_eq (f i) k \<longrightarrow> i = i0"
  shows "dict_get (map (\<lambda>i. (f i, g i)) idxs) k = Inr (g i0)"
  using assms(1,3)
proof (induction idxs)
  case Nil
  then show ?case by simp
next
  case (Cons i idxs)
  show ?case
  proof (cases "key_eq (f i) k")
    case True
    with Cons.prems(2) have "i = i0" by simp
    with True show ?thesis by simp
  next
    case False
    with assms(2) have "i \<noteq> i0" by auto
    with Cons.prems have "i0 \<in> set idxs" "\<forall>i \<in> set idxs. key_eq (f i) k \<longrightarrow> i = i0"
      by simp_all
    from Cons.IH [OF this] False show ?thesis by simp
  qed
qed

lemma dict_set_map_unique:
  assumes "i0 \<in> set idxs" "key_eq (f i0) k" "\<forall>i \<in> set idxs. key_eq (f i) k \<longrightarrow> i = i0"
    "distinct idxs"
  shows "dict_set (map (\<lambda>i. (f i, g i)) idxs) k v =
         map (\<lambda>i. (f i, if i = i0 then v else g i)) idxs"
  using assms(1,3,4)
proof (induction idxs)
  case Nil
  then show ?case by simp
next
  case (Cons i idxs)
  show ?case
  proof (cases "key_eq (f i) k")
    case True
    with Cons.prems(2) have i: "i = i0" by simp
    with Cons.prems(3) have "i0 \<notin> set idxs" by simp
    then have "map (\<lambda>i. (f i, if i = i0 then v else g i)) idxs = map (\<lambda>i. (f i, g i)) idxs"
      by (intro map_cong) auto
    with True i show ?thesis by simp
  next
    case False
    with assms(2) have "i \<noteq> i0" by auto
    with Cons.prems have "i0 \<in> set idxs" "\<forall>i \<in> set idxs. key_eq (f i) k \<longrightarrow> i = i0"
      "distinct idxs"
      by simp_all
    from Cons.IH [OF this] False \<open>i \<noteq> i0\<close> show ?thesis by simp
  qed
qed

lemma cell_column:
  assumes "aligned df" "dict_get (data df) c = Inr col" "i < num_rows df"
  shows "cell df c i = Inr (col ! i)"
proof -
  from assms(2) have "col \<in> snd ` set (data df)" by (rule dict_get_range)
  with assms(1) have "length col = num_rows df" unfolding aligned_def by blast
  with assms(2,3) show ?thesis by (simp add: cell_def list_get_def)
qed

lemma groups_upto_keys:
  "fst ` set (groups_upto df col m) = (!) col ` set (first_rows col m)"
  by (force simp: groups_upto_def)

lemma group_row_step:
  assumes df: "is_dataframe df" "aligned df" and col: "dict_get (data df) c = Inr col"
    and m: "m < num_rows df"
  shows "group_row df c (groups_upto df col m) m = Inr (groups_upto df col (Suc m))"
proof -
  have cell: "cell df c m = Inr (col ! m)"
    using df(2) col m by (rule cell_column)
  have lt: "\<forall>xs \<in> snd ` set (data df). m < length xs"
    using df(2) m by (auto simp: aligned_def)
  note app = append_row_take_rows [OF df(1) lt]
  show ?thesis
  proof (cases "\<exists>j<m. key_eq (col ! j) (col ! m)")
    case True
    then obtain j where "j < m" "key_eq (col ! j) (col ! m)" by blast
    from first_row_exists [OF this]
    obtain i0 where i0: "i0 \<in> set (first_rows col m)" "key_eq (col ! i0) (col ! m)"
      "\<forall>i \<in> set (first_rows col m). key_eq (col ! i) (col ! m) \<longrightarrow> i = i0"
      by blast
    have contains: "dict_contains (groups_upto df col m) (col ! m)"
      using i0(1,2) by (auto simp: dict_contains_iff groups_upto_keys)
    have get: "dict_get (groups_upto df col m) (col ! m)
               = Inr (take_rows df (key_rows col (col ! i0) m))"
      unfolding groups_upto_def
      by (rule dict_get_map_unique [where f = "(!) col" and idxs = "first_rows col m", OF i0])
    have set: "dict_set (groups_upto df col m) (col ! m) v =
        map (\<lambda>i. (col ! i, if i = i0 then v else take_rows df (key_rows col (col ! i) m)))
          (first_rows col m)" for v
      unfolding groups_upto_def
      by (rule dict_set_map_unique [where f = "(!) col" and idxs = "first_rows col m",
            OF i0 distinct_first_rows])
    have fr: "first_rows col (Suc m) = first_rows col m"
      using True by (simp add: first_rows_Suc)
    have "groups_upto df col (Suc m) =
        map (\<lambda>i. (col ! i, if i = i0 then take_rows df (key_rows col (col ! i0) m @ [m])
                             else take_rows df (key_rows col (col ! i) m)))
          (first_rows col m)"
    proof -
      have "(col ! i, take_rows df (key_rows col (col ! i) (Suc m))) =
            (col ! i, if i = i0 then take_rows df (key_rows col (col ! i0) m @ [m])
                      else take_rows df (key_rows col (col ! i) m))"
        if "i \<in> set (first_rows col m)" for i
      proof (cases "i = i0")
        case True
        with i0(2) show ?thesis by (simp add: key_rows_Suc)
      next
        case False
        with i0(3) that have "\<not> key_eq (col ! i) (col ! m)" by blast
        with False show ?thesis by (simp add: key_rows_Suc)
      qed
      then show ?thesis
        unfolding groups_upto_def fr by (intro map_cong refl)
    qed
    then show ?thesis
      using contains by (simp add: group_row_def cell get app set)
  next
    case False
    then have new: "\<forall>j<m. \<not> key_eq (col ! j) (col ! m)" by blast
    have fresh: "\<forall>k' \<in> fst ` set (groups_upto df col m). \<not> key_eq k' (col ! m)"
      using new by (auto simp: groups_upto_keys first_rows_mem)
    then have contains: "\<not> dict_contains (groups_upto df col m) (col ! m)"
      by (simp add: dict_contains_iff)
    have fr: "first_rows col (Suc m) = first_rows col m @ [m]"
      using new by (simp add: first_rows_Suc)
    have "key_rows col (col ! m) m = []"
      using new by (auto simp: key_rows_def filter_empty_conv dest: key_eq_sym)
    then have krm: "key_rows col (col ! m) (Suc m) = [m]"
      by (simp add: key_rows_Suc)
    have old: "map (\<lambda>i. (col ! i, take_rows df (key_rows col (col ! i) (Suc m)))) (first_rows col m)
             = groups_upto df col m"
    proof -
      have "(col ! i, take_rows df (key_rows col (col ! i) (Suc m))) =
                 (col ! i, take_rows df (key_rows col (col ! i) m))"
        if "i \<in> set (first_rows col m)" for i
      proof -
        from that have "i < m" by (simp add: first_rows_mem)
        with new have "\<not> key_eq (col ! i) (col ! m)" by simp
        then show ?thesis by (simp add: key_rows_Suc)
      qed
      then show ?thesis
        unfolding groups_upto_def by (intro map_cong refl)
    qed
    have target: "groups_upto df col (Suc m) = groups_upto df col m @ [(col ! m, take_rows df [m])]"
      using old by (simp add: groups_upto_def [of df col "Suc m"] fr krm)
    have g1: "dict_set (groups_upto df col m) (col ! m) v = groups_upto df col m @ [(col ! m, v)]" for v
      using fresh by (rule dict_set_fresh)
    have get: "dict_get (groups_upto df col m @ [(col ! m, v)]) (col ! m) = Inr v" for v
      using fresh by (simp add: dict_get_append)
    have set: "dict_set (groups_upto df col m @ [(col ! m, v)]) (col ! m) w
               = groups_upto df col m @ [(col ! m, w)]" for v w
      using fresh by (simp add: dict_set_append)
    show ?thesis
      using contains app [of "[]"]
      by (simp add: group_row_def cell g1 get set target
          empty_columns_take_rows [OF df(1)])
  qed
qed

lemma group_loop:
  assumes "is_dataframe df" "aligned df" "dict_get (data df) c = Inr col" "m \<le> num_rows df"
  shows "for_loop (group_row df c) [] [0..<m] = Inr (groups_upto df col m)"
  using assms(4)
proof (induction m)
  case 0
  show ?case by (simp add: groups_upto_def first_rows_def)
next
  case (Suc m)
  then have "m < num_rows df" by simp
  from group_row_step [OF assms(1,2,3) this] Suc show ?case
    by (simp add: for_loop_append)
qed

lemma distinct_keys_snoc:
  "distinct_keys (ks @ [k]) \<longleftrightarrow> distinct_keys ks \<and> (\<forall>x \<in> set ks. \<not> key_eq x k)"
  by (simp add: distinct_keys_append)

lemma distinct_first_keys: "distinct_keys (map ((!) col) (first_rows col m))"
proof (induction m)
  case 0
  show ?case by (simp add: first_rows_def)
next
  case (Suc m)
  then show ?case
    by (auto simp: first_rows_Suc distinct_keys_snoc first_rows_mem)
qed

lemma build_frames_aux:
  "distinct_keys (map fst (pre @ post)) \<Longrightarrow>
   for_loop (\<lambda>result (k, v).
       case DataFrame (Some v) of Inl e \<Rightarrow> Inl e | Inr t \<Rightarrow> Inr (dict_set result k t))
     (map (\<lambda>(k, v). (k, new_dataframe v)) pre) post
   = Inr (map (\<lambda>(k, v). (k, new_dataframe v)) (pre @ post))"
proof (induction post arbitrary: pre)
  case Nil
  then show ?case by simp
next
  case (Cons p post)
  obtain k v where p: "p = (k, v)" by (cases p)
  let ?h = "\<lambda>(k, v). (k, new_dataframe v)"
  from Cons.prems have fresh: "\<forall>k' \<in> fst ` set (map ?h pre). \<not> key_eq k' k"
    by (force simp: distinct_keys_append p)
  have s: "dict_set (map ?h pre) k (new_dataframe v) = map ?h (pre @ [p])"
    using fresh by (simp add: dict_set_fresh p)
  from Cons.prems have "distinct_keys (map fst ((pre @ [p]) @ post))" by simp
  from Cons.IH [OF this] show ?case
    using s by (simp add: p DataFrame_Some)
qed

lemma group_by_eq:
  assumes "is_dataframe df" "aligned df" "dict_get (data df) c = Inr col"
  shows "group_by df c =
     Inr (map (\<lambda>i. (col ! i, new_dataframe (take_rows df (key_rows col (col ! i) (num_rows df)))))
            (first_rows col (num_rows df)))"
proof -
  have "distinct_keys (map fst ([] @ groups_upto df col (num_rows df)))"
    using distinct_first_keys [of col "num_rows df"]
    by (simp add: groups_upto_def comp_def)
  from build_frames_aux [OF this] show ?thesis
    using group_loop [OF assms, of "num_rows df"]
    by (simp add: group_by_def groups_upto_def comp_def)
qed

lemma sample_ok: "is_dataframe sample" "aligned sample"
  by (simp_all add: sample_def is_dataframe_def aligned_def py_def)

lemma sum_indicator:
  assumes "distinct xs" "i0 \<in> set xs" "\<forall>i \<in> set xs. P i \<longleftrightarrow> i = i0"
  shows "sum_list (map (\<lambda>i. if P i then 1 else 0) xs) = (1::nat)"
  using assms
proof (induction xs)
  case Nil
  then show ?case by simp
next
  case (Cons x xs)
  show ?case
  proof (cases "x = i0")
    case True
    with Cons.prems have "\<forall>i \<in> set xs. \<not> P i" by auto
    then have "sum_list (map (\<lambda>i. if P i then 1 else 0) xs) = (0::nat)"
      by (simp add: sum_list_eq_0_iff)
    with True Cons.prems show ?thesis by simp
  next
    case False
    with Cons.prems have "distinct xs" "i0 \<in> set xs" "\<forall>i \<in> set xs. P i \<longleftrightarrow> i = i0" "\<not> P x"
      by auto
    with Cons.IH show ?thesis by simp
  qed
qed

lemma key_rows_length_Suc:
  "length (key_rows col k (Suc m)) = length (key_rows col k m) + (if key_eq k (col ! m) then 1 else 0)"
  by (simp add: key_rows_Suc)

lemma group_sizes:
  "sum_list (map (\<lambda>i. length (key_rows col (col ! i) m)) (first_rows col m)) = m"
proof (induction m)
  case 0
  show ?case by (simp add: first_rows_def)
next
  case (Suc m)
  show ?case
  proof (cases "\<exists>j<m. key_eq (col ! j) (col ! m)")
    case True
    then obtain j where "j < m" "key_eq (col ! j) (col ! m)" by blast
    from first_row_exists [OF this]
    obtain i0 where i0: "i0 \<in> set (first_rows col m)" "key_eq (col ! i0) (col ! m)"
      "\<forall>i \<in> set (first_rows col m). key_eq (col ! i) (col ! m) \<longrightarrow> i = i0"
      by blast
    then have "\<forall>i \<in> set (first_rows col m). key_eq (col ! i) (col ! m) \<longleftrightarrow> i = i0"
      by blast
    from sum_indicator [OF distinct_first_rows i0(1) this]
    have one: "sum_list (map (\<lambda>i. if key_eq (col ! i) (col ! m) then 1 else 0) (first_rows col m)) = (1::nat)" .
    have fr: "first_rows col (Suc m) = first_rows col m"
      using True by (simp add: first_rows_Suc)
    show ?thesis
      unfolding fr key_rows_length_Suc
      by (simp add: sum_list_addf Suc.IH one)
  next
    case False
    then have new: "\<forall>j<m. \<not> key_eq (col ! j) (col ! m)" by blast
    have fr: "first_rows col (Suc m) = first_rows col m @ [m]"
      using new by (simp add: first_rows_Suc)
    have "key_rows col (col ! m) m = []"
      using new by (auto simp: key_rows_def filter_empty_conv dest: key_eq_sym)
    then have krm: "length (key_rows col (col ! m) (Suc m)) = 1"
      by (simp add: key_rows_Suc)
    have old: "map (\<lambda>i. length (key_rows col (col ! i) (Suc m))) (first_rows col m)
        = map (\<lambda>i. length (key_rows col (col ! i) m)) (first_rows col m)"
    proof (intro map_cong refl)
      fix i assume "i \<in> set (first_rows col m)"
      then have "i < m" by (simp add: first_rows_mem)
      with new have "\<not> key_eq (col ! i) (col ! m)" by simp
      then show "length (key_rows col (col ! i) (Suc m)) = length (key_rows col (col ! i) m)"
        by (simp add: key_rows_Suc)
    qed
    from Suc.IH
    have "sum_list (map (\<lambda>i. length (key_rows col (col ! i) (Suc m))) (first_rows col m)) = m"
      by (simp only: old)
    then show ?thesis
      by (simp add: fr krm)
  qed
qed

lemma num_rows_take_rows:
  "data df \<noteq> [] \<Longrightarrow> num_rows (new_dataframe (take_rows df idxs)) = length idxs"
  by (cases "data df") (auto simp: new_dataframe_def take_rows_def)

lemma one_key_per_row:
  assumes "i < m"
  shows "\<exists>k \<in> (!) col ` set (first_rows col m). key_eq k (col ! i) \<and>
           (\<forall>k' \<in> (!) col ` set (first_rows col m). key_eq k' (col ! i) \<longrightarrow> k' = k)"
proof -
  have "key_eq (col ! i) (col ! i)" by simp
  from first_row_exists [OF assms this]
  obtain i0 where i0: "i0 \<in> set (first_rows col m)" "key_eq (col ! i0) (col ! i)"
      "\<forall>j \<in> set (first_rows col m). key_eq (col ! j) (col ! i) \<longrightarrow> j = i0"
    by blast
  show ?thesis
  proof (intro bexI [of _ "col ! i0"] conjI ballI impI)
    show "key_eq (col ! i0) (col ! i)" by (rule i0(2))
    show "col ! i0 \<in> (!) col ` set (first_rows col m)" using i0(1) by simp
  next
    fix k' assume "k' \<in> (!) col ` set (first_rows col m)" "key_eq k' (col ! i)"
    then obtain j where "j \<in> set (first_rows col m)" "k' = col ! j" "key_eq (col ! j) (col ! i)"
      by auto
    with i0(3) show "k' = col ! i0" by blast
  qed
qed

lemma group_by_groups:
  assumes "is_dataframe df" "aligned df" "dict_get (data df) c = Inr col"
  obtains gs where "group_by df c = Inr gs"
    and "map fst gs = map ((!) col) (first_rows col (num_rows df))"
    and "\<forall>(k, sub) \<in> set gs.
           DataFrame (Some (take_rows df (key_rows col k (num_rows df)))) = Inr sub"
    and "sum_list (map (\<lambda>(k, sub). num_rows sub) gs) = num_rows df"
proof -
  let ?n = "num_rows df"
  let ?gs = "map (\<lambda>i. (col ! i, new_dataframe (take_rows df (key_rows col (col ! i) ?n))))
               (first_rows col ?n)"
  have eq: "group_by df c = Inr ?gs"
    using assms by (rule group_by_eq)
  have keys: "map fst ?gs = map ((!) col) (first_rows col ?n)"
    by (simp add: comp_def)
  have subs: "\<forall>(k, sub) \<in> set ?gs.
      DataFrame (Some (take_rows df (key_rows col k ?n))) = Inr sub"
    by (auto simp: DataFrame_Some)
  from assms(3) have "data df \<noteq> []" by auto
  then have "map (\<lambda>(k, sub). num_rows sub) ?gs
      = map (\<lambda>i. length (key_rows col (col ! i) ?n)) (first_rows col ?n)"
    by (simp add: comp_def num_rows_take_rows)
  then have total: "sum_list (map (\<lambda>(k, sub). num_rows sub) ?gs) = ?n"
    by (simp only: group_sizes)
  from eq keys subs total that show ?thesis by blast
qed

lemma group_by_tables:
  assumes "is_dataframe df" "aligned df" "dict_get (data df) c = Inr col"
  obtains gs where "group_by df c = Inr gs"
    and "map fst gs = map ((!) col) (first_rows col (num_rows df))"
    and "\<forall>(k, sub) \<in> set gs.
           data sub = take_rows df (key_rows col k (num_rows df)) \<and>
           columns sub = columns df \<and>
           num_rows sub = length (key_rows col k (num_rows df))"
    and "sum_list (map (\<lambda>(k, sub). num_rows sub) gs) = num_rows df"
proof -
  from assms obtain gs where gs: "group_by df c = Inr gs"
    "map fst gs = map ((!) col) (first_rows col (num_rows df))"
    "\<forall>(k, sub) \<in> set gs.
        DataFrame (Some (take_rows df (key_rows col k (num_rows df)))) = Inr sub"
    "sum_list (map (\<lambda>(k, sub). num_rows sub) gs) = num_rows df"
    by (rule group_by_groups)
  from assms(3) have ne: "data df \<noteq> []" by auto
  have "data sub = take_rows df (key_rows col k (num_rows df)) \<and>
        columns sub = columns df \<and>
        num_rows sub = length (key_rows col k (num_rows df))"
    if "(k, sub) \<in> set gs" for k sub
  proof -
    let ?idxs = "key_rows col k (num_rows df)"
    from gs(3) that have "DataFrame (Some (take_rows df ?idxs)) = Inr sub"
      by blast
    then have sub: "sub = new_dataframe (take_rows df ?idxs)"
      by (simp add: DataFrame_Some)
    have "data sub = take_rows df ?idxs"
      by (simp add: sub new_dataframe_def)
    moreover have "columns sub = map fst (data df)"
      by (simp add: sub new_dataframe_def take_rows_def case_prod_unfold comp_def)
    then have "columns sub = columns df"
      by (simp only: is_dataframe_columns [OF assms(1)])
    moreover have "num_rows sub = length ?idxs"
      unfolding sub using ne by (rule num_rows_take_rows)
    ultimately show ?thesis by (intro conjI)
  qed
  then have "\<forall>(k, sub) \<in> set gs.
      data sub = take_rows df (key_rows col k (num_rows df)) \<and>
      columns sub = columns df \<and>
      num_rows sub = length (key_rows col k (num_rows df))"
    by blast
  with gs(1,2,4) that show ?thesis by blast
qed

lemma sample_column:
  "dict_get (data sample) (PStr (py ''k'')) = Inr [PInt 1, PInt 2, PInt 1, PInt 3]"
  by (simp add: sample_def)

section \<open>The keys of \<open>group_by\<close> (claim C7)\<close>




section \<open>The groups of \<open>group_by\<close> (claim C8)\<close>

text \<open>
  Claim C8: for a table whose columns all have \<open>num_rows\<close> values and a grouping column
  of the table, \<open>group_by\<close> returns its groups keyed in the order in which the keys are
  first seen; the sub-table of a key has every column of the table under its name and in
  the order of the table, each cut down to the rows whose value is the key, in ascending
  order of the row index, and it has the columns list of the table and the number of
  those rows as \<open>num_rows\<close>; every row index belongs to exactly one key; and the row
  counts of the sub-tables add up to \<open>num_rows\<close>.
\<close>

theorem group_by_partition:
  assumes "is_dataframe df" "aligned df" "dict_get (data df) c = Inr col"
  shows "\<exists>gs. group_by df c = Inr gs \<and>
           map fst gs = map ((!) col) (first_rows col (num_rows df)) \<and>
           distinct_keys (map fst gs) \<and>
           (\<forall>(k, sub) \<in> set gs.
              data sub =
                map (\<lambda>(name, xs).
                       (name, map ((!) xs) (filter (\<lambda>i. key_eq k (col ! i)) [0..<num_rows df])))
                  (data df) \<and>
              columns sub = columns df \<and>
              num_rows sub = length (filter (\<lambda>i. key_eq k (col ! i)) [0..<num_rows df])) \<and>
           (\<forall>i < num_rows df. \<exists>k \<in> set (map fst gs). key_eq k (col ! i) \<and>
              (\<forall>k' \<in> set (map fst gs). key_eq k' (col ! i) \<longrightarrow> k' = k)) \<and>
           sum_list (map (\<lambda>(k, sub). num_rows sub) gs) = num_rows df"
proof -
  from assms obtain gs where gs: "group_by df c = Inr gs"
    "map fst gs = map ((!) col) (first_rows col (num_rows df))"
    "\<forall>(k, sub) \<in> set gs.
        data sub = take_rows df (key_rows col k (num_rows df)) \<and>
        columns sub = columns df \<and>
        num_rows sub = length (key_rows col k (num_rows df))"
    "sum_list (map (\<lambda>(k, sub). num_rows sub) gs) = num_rows df"
    by (rule group_by_tables)
  note subs = gs(3) [unfolded key_rows_def take_rows_def]
  have dist: "distinct_keys (map fst gs)"
    unfolding gs(2) by (rule distinct_first_keys)
  have one: "\<forall>i < num_rows df. \<exists>k \<in> set (map fst gs). key_eq k (col ! i) \<and>
              (\<forall>k' \<in> set (map fst gs). key_eq k' (col ! i) \<longrightarrow> k' = k)"
    unfolding gs(2) set_map using one_key_per_row [of _ "num_rows df" col] by blast
  show ?thesis
    by (intro exI [of _ gs] conjI gs(1) gs(2) dist subs one gs(4))
qed

theorem group_by_partition_witness:
  "is_dataframe sample \<and> aligned sample \<and>
   dict_get (data sample) (PStr (py ''k'')) = Inr [PInt 1, PInt 2, PInt 1, PInt 3] \<and>
   (\<exists>gs. group_by sample (PStr (py ''k'')) = Inr gs \<and>
           map fst gs = map ((!) [PInt 1, PInt 2, PInt 1, PInt 3])
                          (first_rows [PInt 1, PInt 2, PInt 1, PInt 3] (num_rows sample)) \<and>
           distinct_keys (map fst gs) \<and>
           (\<forall>(k, sub) \<in> set gs.
              data sub =
                map (\<lambda>(name, xs).
                       (name, map ((!) xs)
                          (filter (\<lambda>i. key_eq k ([PInt 1, PInt 2, PInt 1, PInt 3] ! i))
                             [0..<num_rows sample])))
                  (data sample) \<and>
              columns sub = columns sample \<and>
              num_rows sub =
                length (filter (\<lambda>i. key_eq k ([PInt 1, PInt 2, PInt 1, PInt 3] ! i))
                          [0..<num_rows sample])) \<and>
           (\<forall>i < num_rows sample. \<exists>k \<in> set (map fst gs).
              key_eq k ([PInt 1, PInt 2, PInt 1, PInt 3] ! i) \<and>
              (\<forall>k' \<in> set (map fst gs).
                 key_eq k' ([PInt 1, PInt 2, PInt 1, PInt 3] ! i) \<longrightarrow> k' = k)) \<and>
           sum_list (map (\<lambda>(k, sub). num_rows sub) gs) = num_rows sample) \<and>
   group_by sample (PStr (py ''k'')) =
     Inr [(PInt 1, \<lparr>data = [(PStr (py ''k''), [PInt 1, PInt 1]),
                              (PStr (py ''v''), [PInt 10, PInt 30])],
                      columns = [PStr (py ''k''), PStr (py ''v'')], num_rows = 2\<rparr>),
          (PInt 2, \<lparr>data = [(PStr (py ''k''), [PInt 2]), (PStr (py ''v''), [PInt 20])],
                      columns = [PStr (py ''k''), PStr (py ''v'')], num_rows = 1\<rparr>),
          (PInt 3, \<lparr>data = [(PStr (py ''k''), [PInt 3]), (PStr (py ''v''), [PInt 40])],
                      columns = [PStr (py ''k''), PStr (py ''v'')], num_rows = 1\<rparr>)]"
proof -
  have run: "group_by sample (PStr (py ''k'')) =
     Inr [(PInt 1, \<lparr>data = [(PStr (py ''k''), [PInt 1, PInt 1]),
                              (PStr (py ''v''), [PInt 10, PInt 30])],
                      columns = [PStr (py ''k''), PStr (py ''v'')], num_rows = 2\<rparr>),
          (PInt 2, \<lparr>data = [(PStr (py ''k''), [PInt 2]), (PStr (py ''v''), [PInt 20])],
                      columns = [PStr (py ''k''), PStr (py ''v'')], num_rows = 1\<rparr>),
          (PInt 3, \<lparr>data = [(PStr (py ''k''), [PInt 3]), (PStr (py ''v''), [PInt 40])],
                      columns = [PStr (py ''k''), PStr (py ''v'')], num_rows = 1\<rparr>)]"
    by (simp add: sample_def str_defs df_defs)
  from group_by_partition [OF sample_ok sample_column] sample_ok sample_column run
  show ?thesis
    by (intro conjI)
qed

section \<open>The alignment of the columns (claim C9)\<close>

text \<open>
  Claim C9: for a table whose columns all have \<open>num_rows\<close> values, \<open>filter\<close>,
  \<open>select\<close> with names of the table and \<open>group_by\<close> on a column of the table return,
  and every table they return (for \<open>group_by\<close>, every sub-table) again has
  \<open>num_rows\<close> values of its own in each of its columns.
\<close>

theorem operations_keep_alignment:
  assumes "is_dataframe df" "aligned df"
  shows "(\<exists>df'. filter_df df func = Inr df' \<and> is_dataframe df' \<and> aligned df') \<and>
         ((\<forall>c \<in> set cols. dict_contains (data df) c) \<longrightarrow>
            (\<exists>df'. select df cols = Inr df' \<and> is_dataframe df' \<and> aligned df')) \<and>
         (dict_contains (data df) group_col \<longrightarrow>
            (\<exists>gs. group_by df group_col = Inr gs \<and>
                   (\<forall>sub \<in> snd ` set gs. is_dataframe sub \<and> aligned sub)))"
proof (intro conjI impI)
  show "\<exists>df'. filter_df df func = Inr df' \<and> is_dataframe df' \<and> aligned df'"
    using filter_df_eq [OF assms, of func] new_take_rows [OF assms(1)] by simp
next
  assume "\<forall>c \<in> set cols. dict_contains (data df) c"
  with assms show "\<exists>df'. select df cols = Inr df' \<and> is_dataframe df' \<and> aligned df'"
    by (rule select_result)
next
  assume "dict_contains (data df) group_col"
  then obtain col where col: "dict_get (data df) group_col = Inr col"
    using dict_get_contains by blast
  have "\<forall>sub \<in> snd ` set (map (\<lambda>i. (col ! i,
            new_dataframe (take_rows df (key_rows col (col ! i) (num_rows df)))))
          (first_rows col (num_rows df))). is_dataframe sub \<and> aligned sub"
    using new_take_rows [OF assms(1)] by auto
  with group_by_eq [OF assms col]
  show "\<exists>gs. group_by df group_col = Inr gs \<and>
           (\<forall>sub \<in> snd ` set gs. is_dataframe sub \<and> aligned sub)"
    by blast
qed

theorem operations_keep_alignment_witness:
  "is_dataframe sample \<and> aligned sample \<and>
   (\<exists>df'. filter_df sample (\<lambda>row. dict_get row (PStr (py ''k'')) = Inr (PInt 1)) = Inr df' \<and>
          is_dataframe df' \<and> aligned df') \<and>
   (\<exists>df'. select sample [PStr (py ''v'')] = Inr df' \<and> is_dataframe df' \<and> aligned df') \<and>
   (\<exists>gs. group_by sample (PStr (py ''k'')) = Inr gs \<and>
          (\<forall>sub \<in> snd ` set gs. is_dataframe sub \<and> aligned sub))"
proof -
  have c: "\<forall>c \<in> set [PStr (py ''v'')]. dict_contains (data sample) c"
    "dict_contains (data sample) (PStr (py ''k''))"
    by (simp_all add: sample_def py_def)
  from operations_keep_alignment [OF sample_ok,
      of "\<lambda>row. dict_get row (PStr (py ''k'')) = Inr (PInt 1)" "[PStr (py ''v'')]" "PStr (py ''k'')"]
    c sample_ok
  show ?thesis by blast
qed


section \<open>The columns that \<open>read_csv\<close> builds\<close>

lemma dict_contains_keys:
  "map fst d = map fst d' \<Longrightarrow> dict_contains d k = dict_contains d' k"
  by (metis dict_contains_iff set_map)

lemma dict_contains_set:
  "dict_contains (dict_set d k v) k' \<longleftrightarrow> dict_contains d k' \<or> key_eq k k'"
proof (induction d)
  case Nil
  show ?case by simp
next
  case (Cons p d)
  obtain a b where p: "p = (a, b)" by (cases p)
  show ?case
  proof (cases "key_eq a k")
    case True
    then have "key_eq k k' \<Longrightarrow> key_eq a k'" by (rule key_eq_trans)
    with True show ?thesis by (simp add: p) blast
  next
    case False
    with Cons.IH show ?thesis by (simp add: p)
  qed
qed

lemma empty_columns_snoc: "empty_columns (hs @ [h]) = dict_set (empty_columns hs) h []"
  by (simp add: empty_columns_def)

lemma empty_columns_distinct_keys: "distinct_keys (map fst (empty_columns hs))"
proof (induction hs rule: rev_induct)
  case Nil
  show ?case by (simp add: empty_columns_def)
next
  case (snoc h hs)
  then show ?case
    by (simp only: empty_columns_snoc distinct_keys_dict_set)
qed

lemma empty_columns_values: "xs \<in> snd ` set (empty_columns hs) \<Longrightarrow> xs = []"
proof (induction hs arbitrary: xs rule: rev_induct)
  case Nil
  then show ?case by (simp add: empty_columns_def)
next
  case (snoc h hs)
  from snoc.prems have "xs \<in> snd ` set (dict_set (empty_columns hs) h [])"
    by (simp only: empty_columns_snoc)
  then have "xs = [] \<or> xs \<in> snd ` set (empty_columns hs)"
    by (rule dict_set_range)
  with snoc.IH show ?case by blast
qed

lemma empty_columns_contains:
  "dict_contains (empty_columns hs) h \<longleftrightarrow> (\<exists>h' \<in> set hs. key_eq h' h)"
proof (induction hs rule: rev_induct)
  case Nil
  show ?case by (simp add: empty_columns_def)
next
  case (snoc a hs)
  have "dict_contains (empty_columns (hs @ [a])) h
        \<longleftrightarrow> dict_contains (empty_columns hs) h \<or> key_eq a h"
    by (simp only: empty_columns_snoc dict_contains_set)
  with snoc.IH show ?case by auto
qed

lemma empty_columns_keys: "k \<in> fst ` set (empty_columns hs) \<Longrightarrow> k \<in> set hs"
proof (induction hs rule: rev_induct)
  case Nil
  then show ?case by (simp add: empty_columns_def)
next
  case (snoc a hs)
  from snoc.prems have "k \<in> set (map fst (dict_set (empty_columns hs) a []))"
    by (simp only: empty_columns_snoc set_map)
  then have "k \<in> set (map fst (empty_columns hs)) \<or> k = a"
    by (auto simp: dict_set_keys split: if_splits)
  with snoc.IH show ?case by auto
qed

lemma dict_set_hd: "d \<noteq> [] \<Longrightarrow> dict_set d k v \<noteq> [] \<and> fst (hd (dict_set d k v)) = fst (hd d)"
  by (cases d) (auto split: if_splits)

lemma empty_columns_hd:
  "hs \<noteq> [] \<Longrightarrow> empty_columns hs \<noteq> [] \<and> fst (hd (empty_columns hs)) = hd hs"
proof (induction hs rule: rev_induct)
  case Nil
  then show ?case by simp
next
  case (snoc a hs)
  show ?case
  proof (cases hs)
    case Nil
    then show ?thesis by (simp add: empty_columns_def)
  next
    case (Cons b bs)
    with snoc.IH have ne: "empty_columns hs \<noteq> []" "fst (hd (empty_columns hs)) = hd hs"
      by simp_all
    from Cons have "hd (hs @ [a]) = hd hs" by simp
    with dict_set_hd [OF ne(1), of a "[]"] ne(2)
    show ?thesis by (simp add: empty_columns_snoc)
  qed
qed

lemma dict_append_map:
  assumes "distinct_keys (map fst d)" "dict_contains d h"
  shows "\<exists>xs. dict_get d h = Inr xs \<and>
           dict_set d h (xs @ [v]) = map (\<lambda>(k, ys). (k, if key_eq k h then ys @ [v] else ys)) d"
  using assms
proof (induction d)
  case Nil
  then show ?case by simp
next
  case (Cons p d)
  obtain k ys where p: "p = (k, ys)" by (cases p)
  show ?case
  proof (cases "key_eq k h")
    case True
    have "\<not> key_eq (fst q) h" if "q \<in> set d" for q
    proof
      assume "key_eq (fst q) h"
      with True have "key_eq k (fst q)" using key_eq_sym key_eq_trans by blast
      with Cons.prems(1) that show False by (auto simp: p)
    qed
    then have "map (\<lambda>(k, ys). (k, if key_eq k h then ys @ [v] else ys)) d = d"
      by (intro map_idI) (simp add: case_prod_unfold)
    with True show ?thesis by (simp add: p)
  next
    case False
    with Cons.prems have "distinct_keys (map fst d)" "dict_contains d h"
      by (simp_all add: p)
    from Cons.IH [OF this] False show ?thesis by (auto simp: p)
  qed
qed

lemma add_fields_keys: "map fst (add_fields d hvs) = map fst d"
  by (simp add: add_fields_def case_prod_unfold comp_def)

lemma append_fields_loop:
  assumes "distinct_keys (map fst d)" "\<forall>h \<in> fst ` set hvs. dict_contains d h"
  shows "for_loop (\<lambda>cols hv.
            case cols of
              None \<Rightarrow> Inl TypeError
            | Some d \<Rightarrow>
                (case dict_get d (fst hv) of
                   Inl e \<Rightarrow> Inl e
                 | Inr xs \<Rightarrow> Inr (Some (dict_set d (fst hv) (xs @ [snd hv])))))
          (Some d) hvs
         = Inr (Some (add_fields d hvs))"
  using assms
proof (induction hvs arbitrary: d)
  case Nil
  show ?case by (simp add: add_fields_def case_prod_unfold)
next
  case (Cons hv hvs)
  obtain h v where hv: "hv = (h, v)" by (cases hv)
  let ?d1 = "map (\<lambda>(k, ys). (k, if key_eq k h then ys @ [v] else ys)) d"
  from Cons.prems have "dict_contains d h" by (simp add: hv)
  from dict_append_map [OF Cons.prems(1) this, of v]
  obtain xs where xs: "dict_get d h = Inr xs" "dict_set d h (xs @ [v]) = ?d1"
    by blast
  have keys: "map fst ?d1 = map fst d"
    by (simp add: case_prod_unfold comp_def)
  have "distinct_keys (map fst ?d1)"
    using Cons.prems(1) by (simp only: keys)
  moreover have "\<forall>h \<in> fst ` set hvs. dict_contains ?d1 h"
    using Cons.prems(2) dict_contains_keys [OF keys] by simp
  ultimately have "distinct_keys (map fst ?d1)" "\<forall>h \<in> fst ` set hvs. dict_contains ?d1 h"
    by blast+
  from Cons.IH [OF this]
  have "for_loop (\<lambda>cols hv.
            case cols of
              None \<Rightarrow> Inl TypeError
            | Some d \<Rightarrow>
                (case dict_get d (fst hv) of
                   Inl e \<Rightarrow> Inl e
                 | Inr xs \<Rightarrow> Inr (Some (dict_set d (fst hv) (xs @ [snd hv])))))
          (Some ?d1) hvs = Inr (Some (add_fields ?d1 hvs))" .
  moreover have "add_fields ?d1 hvs = add_fields d (hv # hvs)"
    by (auto simp: add_fields_def hv)
  ultimately show ?case
    by (simp add: hv xs)
qed

lemma read_line_data:
  assumes "0 < i" "distinct_keys (map fst d)" "\<forall>h \<in> set header. dict_contains d h"
  shows "read_line \<lparr>columns_var = Some d, header_var = Some header\<rparr> (i, l) =
     Inr \<lparr>columns_var =
            Some (if rstrip_newlines l = [] then d
                  else add_fields d (zip header (line_values i (rstrip_newlines l)))),
          header_var = Some header\<rparr>"
proof (cases "rstrip_newlines l = []")
  case True
  then show ?thesis by (simp add: read_line_def)
next
  case False
  have "\<forall>h \<in> fst ` set (zip header (line_values i (rstrip_newlines l))). dict_contains d h"
    using assms(3) by (auto dest: set_zip_leftD)
  from append_fields_loop [OF assms(2) this] assms(1) False
  show ?thesis by (simp add: read_line_def Let_def)
qed

lemma read_rows_loop:
  assumes "0 < i" "distinct_keys (map fst d)" "\<forall>h \<in> set header. dict_contains d h"
  shows "for_loop read_line \<lparr>columns_var = Some d, header_var = Some header\<rparr> (enumerate i ls) =
     Inr \<lparr>columns_var = Some (read_rows header d i ls), header_var = Some header\<rparr>"
  using assms
proof (induction ls arbitrary: i d)
  case Nil
  show ?case by simp
next
  case (Cons l ls)
  let ?d1 = "if rstrip_newlines l = [] then d
             else add_fields d (zip header (line_values i (rstrip_newlines l)))"
  have keys: "map fst ?d1 = map fst d"
    by (simp add: add_fields_keys)
  have "0 < Suc i" by simp
  moreover have "distinct_keys (map fst ?d1)"
    using Cons.prems(2) by (simp only: keys)
  moreover have "\<forall>h \<in> set header. dict_contains ?d1 h"
    using Cons.prems(3) dict_contains_keys [OF keys] by simp
  ultimately have "for_loop read_line \<lparr>columns_var = Some ?d1, header_var = Some header\<rparr>
       (enumerate (Suc i) ls) =
     Inr \<lparr>columns_var = Some (read_rows header ?d1 (Suc i) ls), header_var = Some header\<rparr>"
    by (rule Cons.IH)
  moreover have "read_rows header ?d1 (Suc i) ls = read_rows header d i (l # ls)"
    by simp
  ultimately show ?case
    using read_line_data [OF Cons.prems, of l] by simp
qed

lemma filter_fst_length:
  "length (filter (\<lambda>hv. P (fst hv)) zs) = length (filter P (map fst zs))"
  by (induction zs) auto

lemma add_fields_lengths:
  assumes "length header \<le> length values"
  shows "map (\<lambda>(k, xs). (k, length xs)) (add_fields d (zip header values)) =
         map (\<lambda>(k, xs). (k, length xs + occurrences header k)) d"
proof -
  have "map fst (zip header values) = header"
    using assms by (simp add: map_fst_zip_take)
  then have "length (filter (\<lambda>hv. key_eq k (fst hv)) (zip header values)) = occurrences header k"
    for k
    by (simp add: filter_fst_length occurrences_def)
  then show ?thesis
    by (simp add: add_fields_def case_prod_unfold comp_def)
qed

lemma length_line_values: "length (line_values i s) = length (finditer s)"
  by (simp add: line_values_def)

lemma read_rows_lengths:
  assumes "\<forall>l \<in> set ls. rstrip_newlines l \<noteq> [] \<longrightarrow>
             length header \<le> length (finditer (rstrip_newlines l))"
  shows "map (\<lambda>(k, xs). (k, length xs)) (read_rows header d i ls) =
         map (\<lambda>(k, xs). (k, length xs + occurrences header k * data_rows ls)) d"
  using assms
proof (induction ls arbitrary: i d)
  case Nil
  show ?case by (simp add: data_rows_def)
next
  case (Cons l ls)
  then have rest: "\<forall>l \<in> set ls. rstrip_newlines l \<noteq> [] \<longrightarrow>
             length header \<le> length (finditer (rstrip_newlines l))"
    by simp
  show ?case
  proof (cases "rstrip_newlines l = []")
    case True
    with Cons.IH [OF rest, of d "Suc i"] show ?thesis
      by (simp add: data_rows_def)
  next
    case False
    let ?vals = "line_values i (rstrip_newlines l)"
    let ?d1 = "add_fields d (zip header ?vals)"
    from False Cons.prems have "length header \<le> length ?vals"
      by (simp add: length_line_values)
    then have one: "map (\<lambda>(k, xs). (k, length xs)) ?d1 =
         map (\<lambda>(k, xs). (k, length xs + occurrences header k)) d"
      by (rule add_fields_lengths)
    have "map (\<lambda>(k, xs). (k, length xs + occurrences header k * data_rows ls)) ?d1 =
          map (\<lambda>(k, n). (k, n + occurrences header k * data_rows ls))
            (map (\<lambda>(k, xs). (k, length xs)) ?d1)"
      by (simp add: case_prod_unfold comp_def)
    also have "\<dots> = map (\<lambda>(k, xs). (k, length xs + occurrences header k * data_rows (l # ls))) d"
      unfolding one using False by (simp add: case_prod_unfold comp_def data_rows_def)
    finally show ?thesis
      using Cons.IH [OF rest, of ?d1 "Suc i"] False by simp
  qed
qed

lemma search_succeeds: "search False s \<noteq> None"
proof (induction s)
  case Nil
  show ?case by (simp add: re_defs)
next
  case (Cons c s)
  then show ?case by (cases "match_at False (c # s)") auto
qed

lemma finditer_not_empty: "finditer s \<noteq> []"
proof -
  from search_succeeds [of s] obtain st m where "search False s = Some (st, m)"
    by auto
  then show ?thesis
    by (simp add: finditer_def finditer_from.simps [of False s])
qed

lemma line_values_not_empty: "line_values i s \<noteq> []"
  using finditer_not_empty [of s] length_line_values [of i s] by (metis length_0_conv)

lemma read_csv_header_rows:
  assumes "rstrip_newlines l0 \<noteq> []"
  shows "read_csv (l0 # ls) sep =
     Inr (new_dataframe (read_rows (line_values 0 (rstrip_newlines l0))
            (empty_columns (line_values 0 (rstrip_newlines l0))) 1 ls))"
proof -
  let ?header = "line_values 0 (rstrip_newlines l0)"
  have first: "read_line \<lparr>columns_var = None, header_var = None\<rparr> (0, l0) =
      Inr \<lparr>columns_var = Some (empty_columns ?header), header_var = Some ?header\<rparr>"
    using assms by (simp add: read_line_def Let_def)
  have "(0::nat) < 1" by simp
  moreover have "distinct_keys (map fst (empty_columns ?header))"
    by (rule empty_columns_distinct_keys)
  moreover have "\<forall>h \<in> set ?header. dict_contains (empty_columns ?header) h"
    unfolding empty_columns_contains using key_eq_refl by blast
  ultimately have "for_loop read_line
       \<lparr>columns_var = Some (empty_columns ?header), header_var = Some ?header\<rparr> (enumerate 1 ls) =
     Inr \<lparr>columns_var = Some (read_rows ?header (empty_columns ?header) 1 ls),
          header_var = Some ?header\<rparr>"
    by (rule read_rows_loop)
  with first show ?thesis
    by (simp add: read_csv_def DataFrame_Some)
qed

lemma dict_get_entry: "dict_get d h = Inr xs \<Longrightarrow> \<exists>k. (k, xs) \<in> set d \<and> key_eq k h"
  by (induction d) (auto split: if_splits)

lemma occurrences_key_eq: "key_eq k h \<Longrightarrow> occurrences header k = occurrences header h"
proof -
  assume "key_eq k h"
  then have "key_eq k x \<longleftrightarrow> key_eq h x" for x
    using key_eq_sym key_eq_trans by blast
  then have "key_eq k = key_eq h" by (intro ext)
  then show ?thesis by (simp add: occurrences_def)
qed

lemma read_csv_columns:
  assumes "rstrip_newlines l0 \<noteq> []"
    and "header = line_values 0 (rstrip_newlines l0)"
    and "\<forall>l \<in> set ls. rstrip_newlines l \<noteq> [] \<longrightarrow>
           length header \<le> length (finditer (rstrip_newlines l))"
  shows "read_csv (l0 # ls) sep =
           Inr (new_dataframe (read_rows header (empty_columns header) 1 ls))"
    and "is_dataframe (new_dataframe (read_rows header (empty_columns header) 1 ls))"
    and "(k, xs) \<in> set (read_rows header (empty_columns header) 1 ls) \<Longrightarrow>
           k \<in> set header \<and> length xs = occurrences header k * data_rows ls"
    and "h \<in> set header \<Longrightarrow> dict_contains (read_rows header (empty_columns header) 1 ls) h"
    and "num_rows (new_dataframe (read_rows header (empty_columns header) 1 ls))
           = occurrences header (hd header) * data_rows ls"
proof -
  let ?E = "empty_columns header"
  let ?F = "read_rows header ?E 1 ls"
  show "read_csv (l0 # ls) sep = Inr (new_dataframe ?F)"
    using read_csv_header_rows [OF assms(1), of ls sep] by (simp only: assms(2))
  have lens: "map (\<lambda>(k, xs). (k, length xs)) ?F =
              map (\<lambda>(k, xs). (k, length xs + occurrences header k * data_rows ls)) ?E"
    using assms(3) by (rule read_rows_lengths)
  from arg_cong [OF lens, of "map fst"] have keys: "map fst ?F = map fst ?E"
    by (simp add: case_prod_unfold comp_def)
  show "is_dataframe (new_dataframe ?F)"
    by (rule is_dataframe_new) (simp only: keys empty_columns_distinct_keys)
  have cols: "k \<in> set header \<and> length xs = occurrences header k * data_rows ls"
    if "(k, xs) \<in> set ?F" for k xs
  proof -
    from that have "(k, length xs) \<in> set (map (\<lambda>(k, xs). (k, length xs)) ?F)"
      by force
    then have "(k, length xs) \<in>
        set (map (\<lambda>(k, xs). (k, length xs + occurrences header k * data_rows ls)) ?E)"
      by (simp only: lens)
    then obtain ys where ys: "(k, ys) \<in> set ?E"
      "length xs = length ys + occurrences header k * data_rows ls"
      by auto
    from ys(1) have "ys \<in> snd ` set ?E" by force
    then have "ys = []" by (rule empty_columns_values)
    from ys(1) have "k \<in> fst ` set ?E" by force
    then have "k \<in> set header" by (rule empty_columns_keys)
    with ys(2) \<open>ys = []\<close> show ?thesis by simp
  qed
  then show "(k, xs) \<in> set ?F \<Longrightarrow>
      k \<in> set header \<and> length xs = occurrences header k * data_rows ls" .
  show "dict_contains ?F h" if "h \<in> set header"
  proof -
    from that have "dict_contains ?E h"
      unfolding empty_columns_contains using key_eq_refl by blast
    then show ?thesis
      using dict_contains_keys [OF keys] by simp
  qed
  have "header \<noteq> []"
    unfolding assms(2) by (rule line_values_not_empty)
  then have E: "?E \<noteq> []" "fst (hd ?E) = hd header"
    using empty_columns_hd [of header] by simp_all
  from keys E(1) have Fne: "?F \<noteq> []"
    by (cases ?F) auto
  have "fst (hd ?F) = hd (map fst ?F)"
    using Fne by (simp add: hd_map)
  also have "\<dots> = hd (map fst ?E)"
    by (simp only: keys)
  also have "\<dots> = fst (hd ?E)"
    using E(1) by (simp add: hd_map)
  finally have "fst (hd ?F) = hd header"
    using E(2) by simp
  with Fne obtain k0 xs0 rest where F0: "?F = (k0, xs0) # rest" "k0 = hd header"
    by (cases ?F) auto
  then have "(k0, xs0) \<in> set ?F" by simp
  from cols [OF this] F0
  show "num_rows (new_dataframe ?F) = occurrences header (hd header) * data_rows ls"
    by (simp add: new_dataframe_def)
qed

lemma read_rows_values:
  "read_rows header d i ls = map (\<lambda>(k, xs). (k, xs @ column_values header k i ls)) d"
proof (induction ls arbitrary: d i)
  case Nil
  show ?case by (simp add: case_prod_unfold)
next
  case (Cons l ls)
  show ?case
  proof (cases "rstrip_newlines l = []")
    case True
    with Cons.IH [of d "Suc i"] show ?thesis by simp
  next
    case False
    let ?hvs = "zip header (line_values i (rstrip_newlines l))"
    from False have "read_rows header d i (l # ls) = read_rows header (add_fields d ?hvs) (Suc i) ls"
      by simp
    also have "\<dots> = map (\<lambda>(k, xs). (k, xs @ column_values header k (Suc i) ls)) (add_fields d ?hvs)"
      by (rule Cons.IH)
    also have "\<dots> = map (\<lambda>(k, xs). (k, xs @ column_values header k i (l # ls))) d"
      using False by (simp add: add_fields_def row_fields_def case_prod_unfold comp_def)
    finally show ?thesis .
  qed
qed

lemma row_fields_key_eq: "key_eq k h \<Longrightarrow> row_fields header k vs = row_fields header h vs"
proof -
  assume e: "key_eq k h"
  have "key_eq k x \<longleftrightarrow> key_eq h x" for x
    using e key_eq_sym key_eq_trans by blast
  then show ?thesis
    by (simp add: row_fields_def)
qed

lemma column_values_key_eq:
  "key_eq k h \<Longrightarrow> column_values header k i ls = column_values header h i ls"
  by (induction ls arbitrary: i) (simp_all add: row_fields_key_eq)

lemma read_rows_column:
  assumes "(k, xs) \<in> set (read_rows header (empty_columns header) i ls)" "key_eq k h"
  shows "xs = column_values header h i ls"
proof -
  from assms(1) obtain ys where ys: "(k, ys) \<in> set (empty_columns header)"
    "xs = ys @ column_values header k i ls"
    unfolding read_rows_values [of header "empty_columns header"] by auto
  from ys(1) have "ys \<in> snd ` set (empty_columns header)" by force
  then have "ys = []" by (rule empty_columns_values)
  with ys(2) show ?thesis
    by (simp add: column_values_key_eq [OF assms(2)])
qed

section \<open>A column name that occurs more than once (claim C10)\<close>

text \<open>
  Claim C10 says that a column name that the header holds more than once gets a single
  column whose length is a multiple greater than one of the number of data rows. A data
  row with fewer fields than the header reaches only the first fields of the header:
  in the header \<open>a,b,a\<close> the name \<open>a\<close> occurs twice, and after the data row \<open>1\<close>
  its column has one value for one data row.
\<close>

theorem read_csv_short_row:
  "line_values 0 (py ''a,b,a'') = [PStr (py ''a''), PStr (py ''b''), PStr (py ''a''), PStr []] \<and>
   read_csv [py ''a,b,a'' @ [nl], py ''1'' @ [nl]] (py '','') =
     Inr \<lparr>data = [(PStr (py ''a''), [PInt 1]), (PStr (py ''b''), [PStr []]), (PStr [], [])],
          columns = [PStr (py ''a''), PStr (py ''b''), PStr []], num_rows = 1\<rparr>"
  by (simp add: str_defs re_defs conv_defs df_defs)

text \<open>
  Claim C10 as amended: when the first line is the header and every data row has at
  least as many fields as the header, \<open>read_csv\<close> returns a table with one column
  for each header name; the column of a name holds, for each data row in turn, the
  values of the row that stand under a header field with that name, so that a repeated
  name receives every one of its fields; the length of the column is the number of data
  rows times the number of times the name occurs in the header (twice or more for a name
  that is repeated); \<open>num_rows\<close> is that product for the first header name; and the
  columns are not all of length \<open>num_rows\<close> as soon as two names occur a different
  number of times and there is a data row.
\<close>

theorem read_csv_repeated_header:
  assumes "rstrip_newlines l0 \<noteq> []"
    and "header = line_values 0 (rstrip_newlines l0)"
    and "\<forall>l \<in> set ls. rstrip_newlines l \<noteq> [] \<longrightarrow>
           length header \<le> length (finditer (rstrip_newlines l))"
  shows "\<exists>df. read_csv (l0 # ls) sep = Inr df \<and> is_dataframe df \<and>
           (\<forall>h \<in> set header.
              dict_get (data df) h = Inr (column_values header h 1 ls) \<and>
              length (column_values header h 1 ls) = occurrences header h * data_rows ls) \<and>
           num_rows df = occurrences header (hd header) * data_rows ls \<and>
           (\<forall>h \<in> set header. \<forall>h' \<in> set header.
              occurrences header h \<noteq> occurrences header h' \<longrightarrow> 0 < data_rows ls \<longrightarrow>
              \<not> aligned df)"
proof -
  define F where "F = read_rows header (empty_columns header) 1 ls"
  define df where "df = new_dataframe F"
  note facts = read_csv_columns [OF assms, folded F_def]
  have data: "data df = F"
    by (simp add: df_def new_dataframe_def)
  have 1: "read_csv (l0 # ls) sep = Inr df"
    unfolding df_def by (rule facts(1))
  have 2: "is_dataframe df"
    unfolding df_def by (rule facts(2))
  have 4: "num_rows df = occurrences header (hd header) * data_rows ls"
    unfolding df_def by (rule facts(5))
  have col: "\<exists>xs. dict_get (data df) h = Inr xs \<and> xs \<in> snd ` set (data df) \<and>
               length xs = occurrences header h * data_rows ls \<and>
               xs = column_values header h 1 ls"
    if "h \<in> set header" for h
  proof -
    from facts(4) [OF that] obtain xs where xs: "dict_get F h = Inr xs"
      using dict_get_contains by blast
    from dict_get_entry [OF xs] obtain k where k: "(k, xs) \<in> set F" "key_eq k h"
      by blast
    from facts(3) [OF k(1)] have "length xs = occurrences header k * data_rows ls" by simp
    then have "length xs = occurrences header h * data_rows ls"
      by (simp only: occurrences_key_eq [OF k(2)])
    moreover from k(1) have "xs \<in> snd ` set F" by force
    moreover from k have "xs = column_values header h 1 ls"
      unfolding F_def by (rule read_rows_column)
    ultimately show ?thesis using xs unfolding data by blast
  qed
  have unequal: "\<not> aligned df"
    if "h \<in> set header" "h' \<in> set header"
      "occurrences header h \<noteq> occurrences header h'" "0 < data_rows ls" for h h'
  proof
    assume a: "aligned df"
    from col [OF that(1)] col [OF that(2)] obtain xs xs' where
      x: "xs \<in> snd ` set (data df)" "length xs = occurrences header h * data_rows ls"
      "xs' \<in> snd ` set (data df)" "length xs' = occurrences header h' * data_rows ls"
      by blast
    from a x(1) have "length xs = num_rows df"
      unfolding aligned_def by (rule bspec)
    moreover from a x(3) have "length xs' = num_rows df"
      unfolding aligned_def by (rule bspec)
    ultimately have "occurrences header h * data_rows ls = num_rows df"
      "occurrences header h' * data_rows ls = num_rows df"
      using x(2,4) by simp_all
    then have "occurrences header h * data_rows ls = occurrences header h' * data_rows ls"
      by simp
    with that(3,4) show False by simp
  qed
  have 3: "\<forall>h \<in> set header.
              dict_get (data df) h = Inr (column_values header h 1 ls) \<and>
              length (column_values header h 1 ls) = occurrences header h * data_rows ls"
  proof
    fix h assume "h \<in> set header"
    from col [OF this] obtain xs where "dict_get (data df) h = Inr xs"
      "length xs = occurrences header h * data_rows ls" "xs = column_values header h 1 ls"
      by blast
    then show "dict_get (data df) h = Inr (column_values header h 1 ls) \<and>
        length (column_values header h 1 ls) = occurrences header h * data_rows ls"
      by simp
  qed
  have 5: "\<forall>h \<in> set header. \<forall>h' \<in> set header.
              occurrences header h \<noteq> occurrences header h' \<longrightarrow> 0 < data_rows ls \<longrightarrow>
              \<not> aligned df"
    using unequal by blast
  show ?thesis
    by (intro exI [of _ df] conjI 1 2 3 4 5)
qed

theorem read_csv_repeated_header_witness:
  "rstrip_newlines (py ''a,b,a'' @ [nl]) \<noteq> [] \<and>
   [PStr (py ''a''), PStr (py ''b''), PStr (py ''a''), PStr []]
     = line_values 0 (rstrip_newlines (py ''a,b,a'' @ [nl])) \<and>
   length [PStr (py ''a''), PStr (py ''b''), PStr (py ''a''), PStr []]
     \<le> length (finditer (rstrip_newlines (py ''1,2,3'' @ [nl]))) \<and>
   occurrences [PStr (py ''a''), PStr (py ''b''), PStr (py ''a''), PStr []] (PStr (py ''a'')) = 2 \<and>
   data_rows [py ''1,2,3'' @ [nl]] = 1 \<and>
   (\<exists>df. read_csv [py ''a,b,a'' @ [nl], py ''1,2,3'' @ [nl]] (py '','') = Inr df \<and>
         is_dataframe df \<and>
         dict_get (data df) (PStr (py ''a'')) = Inr [PInt 1, PInt 3] \<and>
         num_rows df = 2 \<and> \<not> aligned df)"
proof -
  let ?header = "[PStr (py ''a''), PStr (py ''b''), PStr (py ''a''), PStr []]"
  let ?rows = "[py ''1,2,3'' @ [nl]]"
  have h1: "rstrip_newlines (py ''a,b,a'' @ [nl]) \<noteq> []"
    by (simp add: str_defs)
  have h2: "?header = line_values 0 (rstrip_newlines (py ''a,b,a'' @ [nl]))"
    by (simp add: str_defs re_defs conv_defs df_defs)
  have h3: "length ?header \<le> length (finditer (rstrip_newlines (py ''1,2,3'' @ [nl])))"
    by (simp add: str_defs re_defs)
  then have h3': "\<forall>l \<in> set ?rows. rstrip_newlines l \<noteq> [] \<longrightarrow>
           length ?header \<le> length (finditer (rstrip_newlines l))"
    by simp
  have occ: "occurrences ?header (PStr (py ''a'')) = 2" "occurrences ?header (PStr (py ''b'')) = 1"
    by (simp_all add: occurrences_def py_def)
  have rows: "data_rows ?rows = 1"
    by (simp add: data_rows_def str_defs)
  have a: "PStr (py ''a'') \<in> set ?header" and b: "PStr (py ''b'') \<in> set ?header"
    by simp_all
  from read_csv_repeated_header [OF h1 h2 h3', of "py '',''"]
  obtain df where df: "read_csv [py ''a,b,a'' @ [nl], py ''1,2,3'' @ [nl]] (py '','') = Inr df"
    "is_dataframe df"
    and cols: "\<forall>h \<in> set ?header.
              dict_get (data df) h = Inr (column_values ?header h 1 ?rows) \<and>
              length (column_values ?header h 1 ?rows) = occurrences ?header h * data_rows ?rows"
    and n: "num_rows df = occurrences ?header (hd ?header) * data_rows ?rows"
    and un: "\<forall>h \<in> set ?header. \<forall>h' \<in> set ?header.
        occurrences ?header h \<noteq> occurrences ?header h' \<longrightarrow>
        0 < data_rows ?rows \<longrightarrow> \<not> aligned df"
    by (elim exE conjE)
  have cv: "column_values ?header (PStr (py ''a'')) 1 ?rows = [PInt 1, PInt 3]"
    by (simp add: row_fields_def str_defs re_defs conv_defs df_defs)
  from bspec [OF cols a] have ca: "dict_get (data df) (PStr (py ''a'')) = Inr [PInt 1, PInt 3]"
    by (simp only: cv)
  from n have n2: "num_rows df = 2"
    by (simp only: list.sel occ rows mult_1_right)
  from bspec [OF bspec [OF un a] b] have "\<not> aligned df"
    by (simp only: occ rows) simp
  with df ca n2 have "\<exists>df. read_csv [py ''a,b,a'' @ [nl], py ''1,2,3'' @ [nl]] (py '','') = Inr df \<and>
         is_dataframe df \<and>
         dict_get (data df) (PStr (py ''a'')) = Inr [PInt 1, PInt 3] \<and>
         num_rows df = 2 \<and> \<not> aligned df"
    by (intro exI [of _ df] conjI)
  with h1 h2 h3 occ(1) rows show ?thesis
    by (intro conjI)
qed

end
